theory Spec2Isabelle
  imports Main "HOL-Library.Multiset" "HOL-Library.AList" "HOL-Library.Sublist"
    "HOL-Library.Word"
begin

section \<open>Data model of \<^verbatim>\<open>src/utils/functions/player.ts\<close>\<close>

text \<open>
  A JavaScript string is a sequence of 16-bit code units; any sequence is a string, also
  one with an unpaired surrogate. \<open>js\<close> turns a literal of this file into one.
\<close>

type_synonym jstring = "16 word list"

definition js :: "string \<Rightarrow> jstring" where
  "js s = map of_char s"

text \<open>
  A JavaScript value as \<^verbatim>\<open>JSON.parse\<close> (or a missing property) can produce it. A number
  is carried as the text that \<^verbatim>\<open>String(n)\<close> yields for it, which fixes both its
  truthiness and its contribution to a template string. An object is the list of its own
  properties, in property order, each key once.
\<close>

datatype jsv =
    JUndefined
  | JNull
  | JBool bool
  | JNum jstring
  | JStr jstring
  | JArr "jsv list"
  | JObj "(jstring \<times> jsv) list"

text \<open>
  The \<^verbatim>\<open>Requester\<close> object that \<^verbatim>\<open>requesterTransformer\<close> attaches to every track; the
  fair-queue code reads only its \<^verbatim>\<open>id\<close>.
\<close>

record requester =
  req_id :: jstring
  username :: jstring
  avatarURL :: "jstring option"
  discriminator :: "jstring option"

text \<open>
  \<^verbatim>\<open>track.pluginInfo\<close>: the \<^verbatim>\<open>clientData\<close> property (absent, or an object) and the
  remaining properties, which this file never touches.
\<close>

record plugin_info =
  clientData :: "(jstring \<times> jsv) list option"
  other_props :: "(jstring \<times> jsv) list"

record track_info =
  title :: jstring
  author :: jstring
  uri :: jstring

record track =
  info :: track_info
  requester :: requester
  pluginInfo :: "plugin_info option"

text \<open>
  The calls the two functions make on their collaborators (the Last.fm endpoint, the
  player's search, the player's queue and the player itself), in the order they are made.
\<close>

datatype call =
    LastFmFetch jstring jstring
  | Search jstring jstring
  | QueueSplice nat nat
  | QueueAdd "track list"
  | Play

text \<open>
  The part of a \<^verbatim>\<open>Player\<close> the functions read or write: the truthiness of
  \<^verbatim>\<open>player.get("autoplay")\<close>, \<^verbatim>\<open>player.playing\<close>, \<^verbatim>\<open>player.queue.tracks\<close>, and the
  log of collaborator calls made so far.
\<close>

record player =
  autoplay :: bool
  playing :: bool
  queue_tracks :: "track list"
  calls :: "call list"

section \<open>The collaborating queue\<close>

text \<open>
  Modelled from the spec: the queue of the external player library (section 6: clear,
  append, start playback). \<^verbatim>\<open>queue.splice(start, count)\<close> removes \<open>count\<close> tracks from
  position \<open>start\<close>, \<^verbatim>\<open>queue.add(ts)\<close> appends \<open>ts\<close>, and \<^verbatim>\<open>player.play()\<close> leaves the
  player playing. Each call is logged.
\<close>

definition queue_splice :: "nat \<Rightarrow> nat \<Rightarrow> player \<Rightarrow> player" where
  "queue_splice start cnt p =
     p\<lparr>queue_tracks := take start (queue_tracks p) @ drop (start + cnt) (queue_tracks p),
       calls := calls p @ [QueueSplice start cnt]\<rparr>"

definition queue_add :: "track list \<Rightarrow> player \<Rightarrow> player" where
  "queue_add ts p =
     p\<lparr>queue_tracks := queue_tracks p @ ts, calls := calls p @ [QueueAdd ts]\<rparr>"

definition player_play :: "player \<Rightarrow> player" where
  "player_play p = p\<lparr>playing := True, calls := calls p @ [Play]\<rparr>"

section \<open>A JavaScript \<^verbatim>\<open>Map\<close>\<close>

text \<open>
  A \<^verbatim>\<open>Map\<close> iterates in insertion order and \<^verbatim>\<open>set\<close> on a present key keeps the key's
  position, so it is an association list updated in place.
\<close>

definition map_has :: "('k \<times> 'v) list \<Rightarrow> 'k \<Rightarrow> bool" where
  "map_has m k = (map_of m k \<noteq> None)"

definition map_get :: "('k \<times> 'v) list \<Rightarrow> 'k \<Rightarrow> 'v option" where
  "map_get m k = map_of m k"

definition map_set :: "('k \<times> 'v) list \<Rightarrow> 'k \<Rightarrow> 'v \<Rightarrow> ('k \<times> 'v) list" where
  "map_set m k v = AList.update k v m"

section \<open>\<^verbatim>\<open>applyFairPlayToQueue\<close>\<close>

text \<open>The requester id a track is grouped under: \<^verbatim>\<open>(track.requester as any).id\<close>.\<close>

definition rid :: "track \<Rightarrow> jstring" where
  "rid t = req_id (requester t)"

text \<open>
  One iteration of the grouping loop (lines 182-188): create the requester's list when the
  map has none, then push the track onto it. The push mutates the list stored in the map.
\<close>

definition group_step :: "(jstring \<times> track list) list \<Rightarrow> track \<Rightarrow> (jstring \<times> track list) list" where
  "group_step requesterMap t =
     (let requesterId = rid t;
          m1 = (if \<not> map_has requesterMap requesterId
                then map_set requesterMap requesterId [] else requesterMap)
      in case map_get m1 requesterId of
           None \<Rightarrow> m1
         | Some trackList \<Rightarrow> map_set m1 requesterId (trackList @ [t]))"

definition group_tracks :: "track list \<Rightarrow> (jstring \<times> track list) list" where
  "group_tracks tracks = foldl group_step [] tracks"

text \<open>Lines 192-195: every requester's read cursor starts at zero.\<close>

definition init_indices :: "(jstring \<times> track list) list \<Rightarrow> (jstring \<times> nat) list" where
  "init_indices requesterMap =
     foldl (\<lambda>requesterIndices requesterId. map_set requesterIndices requesterId 0) []
       (map fst requesterMap)"

text \<open>
  The body of the inner \<^verbatim>\<open>for\<close> loop (lines 199-206) on the state
  \<open>(fairQueue, requesterIndices, tracksAdded)\<close>. A cursor that the map does not hold is
  \<^verbatim>\<open>undefined\<close>, and \<^verbatim>\<open>undefined < n\<close> is false.
\<close>

type_synonym fair_state = "track list \<times> (jstring \<times> nat) list \<times> nat"

definition pass_step :: "fair_state \<Rightarrow> jstring \<times> track list \<Rightarrow> fair_state" where
  "pass_step s e =
     (case s of (fairQueue, requesterIndices, tracksAdded) \<Rightarrow>
      case e of (requesterId, trackList) \<Rightarrow>
        (case map_get requesterIndices requesterId of
           None \<Rightarrow> s
         | Some currentIndex \<Rightarrow>
             if currentIndex < length trackList
             then (fairQueue @ [trackList ! currentIndex],
                   map_set requesterIndices requesterId (currentIndex + 1),
                   tracksAdded + 1)
             else s))"

definition round_pass :: "(jstring \<times> track list) list \<Rightarrow> fair_state \<Rightarrow> fair_state" where
  "round_pass requesterMap s = foldl pass_step s requesterMap"

text \<open>
  The \<^verbatim>\<open>while (tracksAdded < tracks.length)\<close> loop. Nothing in its text bounds the number
  of passes, so it is a partial function: \<open>None\<close> stands for a loop that never exits.
\<close>

partial_function (option) build_loop ::
  "nat \<Rightarrow> (jstring \<times> track list) list \<Rightarrow> fair_state \<Rightarrow> fair_state option" where
  "build_loop n requesterMap s =
     (if snd (snd s) < n then build_loop n requesterMap (round_pass requesterMap s)
      else Some s)"

text \<open>
  The whole function: snapshot the queue, group, interleave, then empty the player's
  queue and add the fair queue to it; the fair queue is also the return value.
\<close>

definition applyFairPlayToQueue :: "player \<Rightarrow> (player \<times> track list) option" where
  "applyFairPlayToQueue p =
     (let tracks = queue_tracks p;
          requesterMap = group_tracks tracks;
          requesterIndices = init_indices requesterMap
      in case build_loop (length tracks) requesterMap ([], requesterIndices, 0) of
           None \<Rightarrow> None
         | Some (fairQueue, _, _) \<Rightarrow>
             (let p1 = queue_splice 0 (length (queue_tracks p)) p;
                  p2 = queue_add fairQueue p1
              in Some (p2, fairQueue)))"

subsection \<open>What the loops compute\<close>

text \<open>Requester ids in the order of their first appearance.\<close>

definition first_seen :: "'a list \<Rightarrow> 'a list" where
  "first_seen xs = rev (remdups (rev xs))"

text \<open>The groups in closed form: one per requester, holding that requester's tracks.\<close>

definition groups_of :: "track list \<Rightarrow> (jstring \<times> track list) list" where
  "groups_of ts = map (\<lambda>r. (r, filter (\<lambda>t. rid t = r) ts)) (first_seen (map rid ts))"

text \<open>Round \<open>k\<close>: the \<open>k\<close>-th track of every group that has one, in group order.\<close>

definition nth_round :: "nat \<Rightarrow> (jstring \<times> track list) list \<Rightarrow> track list" where
  "nth_round k gs = concat (map (\<lambda>e. if k < length (snd e) then [snd e ! k] else []) gs)"

definition rounds_upto :: "nat \<Rightarrow> (jstring \<times> track list) list \<Rightarrow> track list" where
  "rounds_upto m gs = concat (map (\<lambda>k. nth_round k gs) [0..<m])"

text \<open>The fair queue in closed form: the rounds over the groups, one after the other.\<close>

definition fair_order :: "track list \<Rightarrow> track list" where
  "fair_order ts = rounds_upto (length ts) (groups_of ts)"

section \<open>JavaScript semantics used by the autoplay code\<close>

text \<open>
  What a rejected promise or a \<^verbatim>\<open>throw\<close> carries. \<open>TypeError\<close> is a property read on
  \<^verbatim>\<open>null\<close> or \<^verbatim>\<open>undefined\<close>, or a value that cannot be turned into a string;
  \<open>URIError\<close> is \<^verbatim>\<open>encodeURIComponent\<close> on an unpaired surrogate; the others are the
  failures of \<^verbatim>\<open>fetch\<close>, \<^verbatim>\<open>response.json()\<close> and \<^verbatim>\<open>player.search\<close>.
\<close>

datatype exn = TypeError | URIError | FetchError | SyntaxError | SearchError

definition bind_exn :: "exn + 'a \<Rightarrow> ('a \<Rightarrow> exn + 'b) \<Rightarrow> exn + 'b" where
  "bind_exn r f = (case r of Inl e \<Rightarrow> Inl e | Inr v \<Rightarrow> f v)"

fun truthy :: "jsv \<Rightarrow> bool" where
  "truthy JUndefined = False"
| "truthy JNull = False"
| "truthy (JBool b) = b"
| "truthy (JNum s) = (s \<noteq> js ''0'' \<and> s \<noteq> js ''NaN'')"
| "truthy (JStr s) = (s \<noteq> [])"
| "truthy (JArr xs) = True"
| "truthy (JObj ps) = True"

text \<open>
  The property read \<^verbatim>\<open>v.k\<close> for the names the code reads (\<^verbatim>\<open>similartracks\<close>,
  \<^verbatim>\<open>track\<close>, \<^verbatim>\<open>artist\<close>, \<^verbatim>\<open>name\<close>), none of which a built-in prototype defines: it
  throws on \<^verbatim>\<open>null\<close> and \<^verbatim>\<open>undefined\<close>, looks the key up in an object, and is
  \<^verbatim>\<open>undefined\<close> on every other value.
\<close>

fun get_prop :: "jsv \<Rightarrow> jstring \<Rightarrow> exn + jsv" where
  "get_prop JUndefined k = Inl TypeError"
| "get_prop JNull k = Inl TypeError"
| "get_prop (JObj ps) k = Inr (case map_of ps k of None \<Rightarrow> JUndefined | Some v \<Rightarrow> v)"
| "get_prop v k = Inr JUndefined"

text \<open>\<^verbatim>\<open>Array.prototype.join(",")\<close> on strings already converted.\<close>

fun join_comma :: "jstring list \<Rightarrow> jstring" where
  "join_comma [] = []"
| "join_comma [s] = s"
| "join_comma (s # t # ts) = s @ js '','' @ join_comma (t # ts)"

text \<open>Results computed one after the other: the first throw is the outcome.\<close>

fun sequence_exn :: "(exn + 'a) list \<Rightarrow> exn + 'a list" where
  "sequence_exn [] = Inr []"
| "sequence_exn (r # rs) =
     bind_exn r (\<lambda>v. bind_exn (sequence_exn rs) (\<lambda>vs. Inr (v # vs)))"

text \<open>
  The string a template literal inserts for a value. An object parsed from JSON has no
  callable member: when it has an own \<^verbatim>\<open>toString\<close> property, that property hides
  \<^verbatim>\<open>Object.prototype.toString\<close>, the inherited or own \<^verbatim>\<open>valueOf\<close> yields no
  primitive either, and the conversion throws; otherwise the object reads
  \<^verbatim>\<open>[object Object]\<close>. An array is joined with commas, its \<^verbatim>\<open>null\<close> and
  \<^verbatim>\<open>undefined\<close> elements reading as the empty string, and throws when an element does.
\<close>

fun js_to_string :: "jsv \<Rightarrow> exn + jstring" where
  "js_to_string JUndefined = Inr (js ''undefined'')"
| "js_to_string JNull = Inr (js ''null'')"
| "js_to_string (JBool b) = Inr (if b then js ''true'' else js ''false'')"
| "js_to_string (JNum s) = Inr s"
| "js_to_string (JStr s) = Inr s"
| "js_to_string (JArr xs) =
     bind_exn
       (sequence_exn
          (map (\<lambda>x. if x = JNull \<or> x = JUndefined then Inr [] else js_to_string x) xs))
       (\<lambda>parts. Inr (join_comma parts))"
| "js_to_string (JObj ps) =
     (if map_of ps (js ''toString'') = None then Inr (js ''[object Object]'')
      else Inl TypeError)"

text \<open>
  \<^verbatim>\<open>Array.prototype.filter\<close> and \<^verbatim>\<open>map\<close> with a callback that may throw: the first
  throw ends the call.
\<close>

fun filter_exn :: "('a \<Rightarrow> exn + bool) \<Rightarrow> 'a list \<Rightarrow> exn + 'a list" where
  "filter_exn f [] = Inr []"
| "filter_exn f (x # xs) =
     bind_exn (f x) (\<lambda>keep. bind_exn (filter_exn f xs) (\<lambda>rest.
       Inr (if keep then x # rest else rest)))"

fun map_exn :: "('a \<Rightarrow> exn + 'b) \<Rightarrow> 'a list \<Rightarrow> exn + 'b list" where
  "map_exn f [] = Inr []"
| "map_exn f (x # xs) =
     bind_exn (f x) (\<lambda>y. bind_exn (map_exn f xs) (\<lambda>ys. Inr (y # ys)))"

text \<open>\<^verbatim>\<open>String.prototype.includes\<close>: the argument occurs as a contiguous run.\<close>

fun str_includes :: "'a list \<Rightarrow> 'a list \<Rightarrow> bool" where
  "str_includes [] sub = (sub = [])"
| "str_includes (c # cs) sub = (prefix sub (c # cs) \<or> str_includes cs sub)"

text \<open>
  \<^verbatim>\<open>encodeURIComponent\<close> throws on a string that is not well formed: one with a high
  surrogate (55296 to 56319) not followed by a low one (56320 to 57343), or with a low
  surrogate not preceded by a high one.
\<close>

definition is_high :: "16 word \<Rightarrow> bool" where
  "is_high u = (55296 \<le> u \<and> u \<le> 56319)"

definition is_low :: "16 word \<Rightarrow> bool" where
  "is_low u = (56320 \<le> u \<and> u \<le> 57343)"

fun well_formed :: "jstring \<Rightarrow> bool" where
  "well_formed [] = True"
| "well_formed [u] = (\<not> is_high u \<and> \<not> is_low u)"
| "well_formed (u # v # us) =
     (if is_high u then is_low v \<and> well_formed us
      else \<not> is_low u \<and> well_formed (v # us))"

section \<open>The collaborating services\<close>

text \<open>What \<^verbatim>\<open>fetch(url)\<close> followed by \<^verbatim>\<open>response.json()\<close> can do.\<close>

datatype fetch_outcome = FetchRejects | JsonRejects | JsonBody jsv

text \<open>
  The surroundings of a run: \<^verbatim>\<open>env.LASTFM_API_KEY\<close>, the answer of the Last.fm endpoint
  to the request for an artist and a track (the URL is built from these two and the key),
  the answer of \<^verbatim>\<open>player.search\<close> to a query, a source and a requester (a rejection, or
  the \<^verbatim>\<open>tracks\<close> of the result), and the engine's \<^verbatim>\<open>String.prototype.toLowerCase\<close>,
  whose Unicode case tables are no part of this repository: it is left open, so that
  what is proved holds for every lower-casing.
\<close>

record services =
  LASTFM_API_KEY :: "jstring option"
  lastfm :: "jstring \<Rightarrow> jstring \<Rightarrow> fetch_outcome"
  search :: "jstring \<Rightarrow> jstring \<Rightarrow> requester \<Rightarrow> exn + track list"
  toLowerCase :: "jstring \<Rightarrow> jstring"

section \<open>\<^verbatim>\<open>getSimilarTracksFromLastFm\<close>\<close>

text \<open>An element of the returned array; the fields hold whatever the response held.\<close>

record candidate =
  artist :: jsv
  name :: jsv

text \<open>The filter callback of line 35: \<^verbatim>\<open>t.artist && t.name\<close>, read as a boolean.\<close>

definition similar_entry_ok :: "jsv \<Rightarrow> exn + bool" where
  "similar_entry_ok t =
     bind_exn (get_prop t (js ''artist'')) (\<lambda>a.
       if \<not> truthy a then Inr False
       else bind_exn (get_prop t (js ''name'')) (\<lambda>n. Inr (truthy n)))"

text \<open>The map callback of lines 36-39.\<close>

definition to_candidate :: "jsv \<Rightarrow> exn + candidate" where
  "to_candidate t =
     bind_exn (get_prop t (js ''artist'')) (\<lambda>a.
     bind_exn (case a of JStr s \<Rightarrow> Inr a | _ \<Rightarrow> get_prop a (js ''name'')) (\<lambda>ar.
     bind_exn (get_prop t (js ''name'')) (\<lambda>n.
       Inr \<lparr>artist = ar, name = n\<rparr>)))"

text \<open>Lines 29-45, on the parsed response.\<close>

definition similar_from_data :: "jsv \<Rightarrow> exn + candidate list" where
  "similar_from_data data =
     bind_exn (get_prop data (js ''similartracks'')) (\<lambda>st.
       if \<not> truthy st then Inr []
       else bind_exn (get_prop st (js ''track'')) (\<lambda>tr.
         if \<not> truthy tr then Inr []
         else (let tracks = (case tr of JArr xs \<Rightarrow> xs | _ \<Rightarrow> [tr])
               in bind_exn (filter_exn similar_entry_ok tracks) (\<lambda>kept.
                  bind_exn (map_exn to_candidate kept) (\<lambda>similarTracks.
                    Inr (take 10 similarTracks))))))"

text \<open>
  The body of the \<^verbatim>\<open>try\<close> block: the calls it makes and its outcome. Without a key no
  request is made; nor is one made when encoding the artist or the track throws
  (lines 22-23).
\<close>

definition lastfm_try :: "services \<Rightarrow> jstring \<Rightarrow> jstring \<Rightarrow> call list \<times> (exn + candidate list)" where
  "lastfm_try sv artist_name track_name =
     (case LASTFM_API_KEY sv of
        None \<Rightarrow> ([], Inr [])
      | Some API_KEY \<Rightarrow>
          if API_KEY = [] then ([], Inr [])
          else if \<not> well_formed artist_name \<or> \<not> well_formed track_name
          then ([], Inl URIError)
          else ([LastFmFetch artist_name track_name],
                case lastfm sv artist_name track_name of
                  FetchRejects \<Rightarrow> Inl FetchError
                | JsonRejects \<Rightarrow> Inl SyntaxError
                | JsonBody data \<Rightarrow> similar_from_data data))"

text \<open>The function: the \<^verbatim>\<open>try\<close> block, and the \<^verbatim>\<open>catch\<close> that answers \<^verbatim>\<open>[]\<close>.\<close>

definition getSimilarTracksFromLastFm ::
  "services \<Rightarrow> jstring \<Rightarrow> jstring \<Rightarrow> call list \<times> (exn + candidate list)" where
  "getSimilarTracksFromLastFm sv artist_name track_name =
     (case lastfm_try sv artist_name track_name of
        (made, Inl error) \<Rightarrow> (made, Inr [])
      | (made, Inr similarTracks) \<Rightarrow> (made, Inr similarTracks))"

section \<open>\<^verbatim>\<open>autoPlayFunction\<close>\<close>

text \<open>The title test of lines 104-108 and 147-150.\<close>

definition lyric_free :: "services \<Rightarrow> track \<Rightarrow> bool" where
  "lyric_free sv t =
     (let lowered = toLowerCase sv (title (info t))
      in \<not> str_includes lowered (js ''lyrics'') \<and> \<not> str_includes lowered (js ''lyric''))"

text \<open>
  The map callback of lines 110-117 and 152-159: \<^verbatim>\<open>pluginInfo\<close> defaults to an empty
  object, and \<^verbatim>\<open>clientData\<close> becomes a copy of itself with \<^verbatim>\<open>fromAutoplay: true\<close> set.
\<close>

definition tag_autoplay :: "track \<Rightarrow> track" where
  "tag_autoplay t =
     (let pi = (case pluginInfo t of
                  None \<Rightarrow> \<lparr>clientData = None, other_props = []\<rparr>
                | Some pi \<Rightarrow> pi);
          cd = (case clientData pi of None \<Rightarrow> [] | Some cd \<Rightarrow> cd)
      in t\<lparr>pluginInfo :=
             Some (pi\<lparr>clientData :=
                       Some (AList.update (js ''fromAutoplay'') (JBool True) cd)\<rparr>)\<rparr>)"

text \<open>
  The query of line 94: the template literal turns the artist and then the name into
  strings, and throws when either conversion does.
\<close>

definition searchQuery :: "candidate \<Rightarrow> exn + jstring" where
  "searchQuery c =
     bind_exn (js_to_string (artist c)) (\<lambda>a.
     bind_exn (js_to_string (name c)) (\<lambda>n.
       Inr (a @ js '' '' @ n)))"

text \<open>
  The callback of lines 92-100 for one candidate: the \<^verbatim>\<open>try\<close> block builds the query
  and then searches, and the \<^verbatim>\<open>catch\<close> answers \<^verbatim>\<open>null\<close> for a throw of either. The
  callback calls \<^verbatim>\<open>player.search\<close> only when the query could be built.
\<close>

definition search_calls :: "candidate \<Rightarrow> call list" where
  "search_calls c =
     (case searchQuery c of Inl e \<Rightarrow> [] | Inr q \<Rightarrow> [Search q (js ''ytmsearch'')])"

definition search_first :: "services \<Rightarrow> track \<Rightarrow> candidate \<Rightarrow> track option" where
  "search_first sv lastTrack c =
     (case bind_exn (searchQuery c) (\<lambda>q.
             bind_exn (search sv q (js ''ytmsearch'') (requester lastTrack)) (\<lambda>tracks.
               Inr (if 0 < length tracks then Some (tracks ! 0) else None))) of
        Inl e \<Rightarrow> None
      | Inr found \<Rightarrow> found)"

text \<open>Lines 102-103: the results of the searches, in candidate order, without the nulls.\<close>

definition primary_hits :: "services \<Rightarrow> track \<Rightarrow> candidate list \<Rightarrow> track list" where
  "primary_hits sv lastTrack similarTracks =
     map the (filter (\<lambda>r. r \<noteq> None) (map (search_first sv lastTrack) (take 10 similarTracks)))"

text \<open>Lines 102-117.\<close>

definition foundTracks :: "services \<Rightarrow> track \<Rightarrow> candidate list \<Rightarrow> track list" where
  "foundTracks sv lastTrack similarTracks =
     map tag_autoplay
       (take 10 (filter (lyric_free sv) (primary_hits sv lastTrack similarTracks)))"

text \<open>Lines 120-125 and 162-167: add to the queue, then play if idle.\<close>

definition enqueue_and_play :: "track list \<Rightarrow> player \<Rightarrow> player" where
  "enqueue_and_play ts p =
     (let p1 = queue_add ts p
      in if \<not> playing p1 \<and> 0 < length (queue_tracks p1) then player_play p1 else p1)"

text \<open>Lines 131-142: the fallback search; a rejection is caught and gives \<^verbatim>\<open>null\<close>.\<close>

definition artistQuery :: "track \<Rightarrow> jstring" where
  "artistQuery lastTrack = author (info lastTrack) @ js '' popular songs''"

definition fallbackRes :: "services \<Rightarrow> track \<Rightarrow> track list option" where
  "fallbackRes sv lastTrack =
     (case search sv (artistQuery lastTrack) (js ''ytmsearch'') (requester lastTrack) of
        Inl e \<Rightarrow> None
      | Inr tracks \<Rightarrow> Some tracks)"

text \<open>Lines 146-159.\<close>

definition cleanedTracks :: "services \<Rightarrow> track list \<Rightarrow> track list" where
  "cleanedTracks sv tracks = map tag_autoplay (take 3 (filter (lyric_free sv) tracks))"

text \<open>Lines 130-169.\<close>

definition fallback_path :: "services \<Rightarrow> track \<Rightarrow> player \<Rightarrow> player" where
  "fallback_path sv lastTrack p =
     (let p1 = p\<lparr>calls := calls p @ [Search (artistQuery lastTrack) (js ''ytmsearch'')]\<rparr>
      in case fallbackRes sv lastTrack of
           None \<Rightarrow> p1
         | Some tracks \<Rightarrow>
             if 0 < length tracks
             then (if 0 < length (cleanedTracks sv tracks)
                   then enqueue_and_play (cleanedTracks sv tracks) p1 else p1)
             else p1)"

text \<open>
  The function. The result is a sum because the function is \<^verbatim>\<open>async\<close>: \<open>Inl\<close> is a
  rejection reaching the caller. The callbacks of line 92 start in candidate order, so
  their searches are logged in that order.
\<close>

definition autoPlayFunction :: "services \<Rightarrow> player \<Rightarrow> track option \<Rightarrow> exn + player" where
  "autoPlayFunction sv p lastTrack =
     (if \<not> autoplay p then Inr p
      else case lastTrack of
        None \<Rightarrow> Inr p
      | Some lt \<Rightarrow>
          (case getSimilarTracksFromLastFm sv (author (info lt)) (title (info lt)) of
             (made, res) \<Rightarrow>
               bind_exn res (\<lambda>similarTracks.
                 (let p1 = p\<lparr>calls := calls p @ made\<rparr>
                  in if 0 < length similarTracks
                     then (let p2 = p1\<lparr>calls := calls p1 @
                                     concat (map search_calls (take 10 similarTracks))\<rparr>
                           in if 0 < length (foundTracks sv lt similarTracks)
                              then Inr (enqueue_and_play (foundTracks sv lt similarTracks) p2)
                              else Inr (fallback_path sv lt p2))
                     else Inr (fallback_path sv lt p1)))))"

section \<open>Notions used to state the properties of the autoplay code\<close>

text \<open>The list \<^verbatim>\<open>similarTracks\<close> that \<^verbatim>\<open>autoPlayFunction\<close> holds after line 89.\<close>

definition similarTracks_of :: "services \<Rightarrow> track \<Rightarrow> candidate list" where
  "similarTracks_of sv lt =
     (case snd (getSimilarTracksFromLastFm sv (author (info lt)) (title (info lt))) of
        Inl e \<Rightarrow> []
      | Inr similarTracks \<Rightarrow> similarTracks)"

text \<open>The tracks of the fallback search that pass the title test, before the cut to 3.\<close>

definition usable_fallback :: "services \<Rightarrow> track \<Rightarrow> track list" where
  "usable_fallback sv lt =
     filter (lyric_free sv) (case fallbackRes sv lt of None \<Rightarrow> [] | Some tracks \<Rightarrow> tracks)"

text \<open>
  The calls the lookup of line 89 makes: the one request, or none (no key, or a string
  that cannot be encoded).
\<close>

definition lookup_calls :: "services \<Rightarrow> track \<Rightarrow> call list" where
  "lookup_calls sv lt = fst (getSimilarTracksFromLastFm sv (author (info lt)) (title (info lt)))"

text \<open>
  The annotation data of a track: the properties of \<^verbatim>\<open>pluginInfo.clientData\<close> (none when
  the object or its parent is absent) and the other properties of \<^verbatim>\<open>pluginInfo\<close>.
\<close>

definition client_data_of :: "track \<Rightarrow> (jstring \<times> jsv) list" where
  "client_data_of t =
     (case pluginInfo t of
        None \<Rightarrow> []
      | Some pi \<Rightarrow> (case clientData pi of None \<Rightarrow> [] | Some cd \<Rightarrow> cd))"

definition other_props_of :: "track \<Rightarrow> (jstring \<times> jsv) list" where
  "other_props_of t = (case pluginInfo t of None \<Rightarrow> [] | Some pi \<Rightarrow> other_props pi)"

fun is_queue_add :: "call \<Rightarrow> bool" where
  "is_queue_add (QueueAdd ts) = True"
| "is_queue_add c = False"

text \<open>Calls that go to the network and leave the player alone.\<close>

fun network_call :: "call \<Rightarrow> bool" where
  "network_call (LastFmFetch a t) = True"
| "network_call (Search q src) = True"
| "network_call c = False"





section \<open>Sample data\<close>

text \<open>Two requesters, a track constructor, and the queue \<open>a1, a2, a3, b1\<close>.\<close>

definition ex_alice :: requester where
  "ex_alice =
     \<lparr>req_id = js ''1'', username = js ''alice'', avatarURL = None, discriminator = None\<rparr>"

definition ex_bob :: requester where
  "ex_bob =
     \<lparr>req_id = js ''2'', username = js ''bob'', avatarURL = None, discriminator = None\<rparr>"

definition mk_track :: "string \<Rightarrow> requester \<Rightarrow> track" where
  "mk_track ttl rq =
     \<lparr>info = \<lparr>title = js ttl, author = js ''Band'', uri = js ttl\<rparr>,
      requester = rq, pluginInfo = None\<rparr>"

definition ex_queue :: "track list" where
  "ex_queue = [mk_track ''a1'' ex_alice, mk_track ''a2'' ex_alice,
               mk_track ''a3'' ex_alice, mk_track ''b1'' ex_bob]"

definition ex_fair_queue :: "track list" where
  "ex_fair_queue = [mk_track ''a1'' ex_alice, mk_track ''b1'' ex_bob,
                    mk_track ''a2'' ex_alice, mk_track ''a3'' ex_alice]"

definition ex_player :: player where
  "ex_player = \<lparr>autoplay = False, playing = True, queue_tracks = ex_queue, calls = []\<rparr>"

text \<open>
  A player with autoplay on and a last track. A sample lower-casing: the capital letters
  A to Z move up by 32 and every other unit stays. Three surroundings: one whose Last.fm
  answer is \<^verbatim>\<open>null\<close> and whose search knows three songs of the band; one whose Last.fm
  names one similar track and whose searches find lyric videos only; one whose Last.fm
  names a track by an artist object without a name; and one whose Last.fm names a track
  whose name is an object with an own \<^verbatim>\<open>toString\<close> member, while the search finds
  something for every query.
\<close>

definition ex_auto_player :: player where
  "ex_auto_player = \<lparr>autoplay = True, playing = False, queue_tracks = [], calls = []\<rparr>"

definition ex_last :: track where
  "ex_last = mk_track ''Hit'' ex_alice"

definition ex_lower :: "jstring \<Rightarrow> jstring" where
  "ex_lower s = map (\<lambda>u. if 65 \<le> u \<and> u \<le> 90 then u + 32 else u) s"

definition ex_services :: services where
  "ex_services =
     \<lparr>LASTFM_API_KEY = Some (js ''key''),
      lastfm = (\<lambda>a t. JsonBody JNull),
      search = (\<lambda>q src rq.
        if q = js ''Band popular songs''
        then Inr [mk_track ''Song (Lyrics)'' rq, mk_track ''Song'' rq, mk_track ''Other'' rq]
        else Inl SearchError),
      toLowerCase = ex_lower\<rparr>"

definition ex_similar_body :: jsv where
  "ex_similar_body =
     JObj [(js ''similartracks'',
       JObj [(js ''track'',
         JArr [JObj [(js ''artist'', JStr (js ''X'')), (js ''name'', JStr (js ''Y''))]])])]"

definition ex_services_lyrics :: services where
  "ex_services_lyrics =
     \<lparr>LASTFM_API_KEY = Some (js ''key''),
      lastfm = (\<lambda>a t. JsonBody ex_similar_body),
      search = (\<lambda>q src rq.
        if q = js ''X Y'' then Inr [mk_track ''Y (Lyrics)'' rq]
        else if q = js ''Band popular songs'' then Inr [mk_track ''Band LYRIC video'' rq]
        else Inl SearchError),
      toLowerCase = ex_lower\<rparr>"



definition ex_tostring_body :: jsv where
  "ex_tostring_body =
     JObj [(js ''similartracks'',
       JObj [(js ''track'',
         JArr [JObj [(js ''artist'', JStr (js ''A'')),
                     (js ''name'', JObj [(js ''toString'', JNum (js ''1''))])]])])]"

definition ex_services_tostring :: services where
  "ex_services_tostring =
     \<lparr>LASTFM_API_KEY = Some (js ''key''),
      lastfm = (\<lambda>a t. JsonBody ex_tostring_body),
      search = (\<lambda>q src rq.
        if q = js ''Band popular songs''
        then Inr [mk_track ''Song (Lyrics)'' rq, mk_track ''Song'' rq, mk_track ''Other'' rq]
        else Inr [mk_track ''Wrong'' rq]),
      toLowerCase = ex_lower\<rparr>"

section \<open>Literals\<close>

lemma of_char_lt: "(of_char c :: nat) < 256"
  using of_char_mod_256 [of c, where ?'a = nat] by (metis mod_less_divisor zero_less_numeral)

lemma of_char_word_eq [simp]: "(of_char c :: 16 word) = of_char d \<longleftrightarrow> c = d"
proof -
  have "(of_char c :: 16 word) = of_nat (of_char c)" "(of_char d :: 16 word) = of_nat (of_char d)"
    by (simp_all add: of_nat_of_char)
  moreover have "take_bit 16 (of_char c :: nat) = of_char c"
    "take_bit 16 (of_char d :: nat) = of_char d"
  proof -
    have "(of_char x :: nat) < 65536" for x
      using of_char_lt [of x] by linarith
    then show "take_bit 16 (of_char c :: nat) = of_char c"
      and "take_bit 16 (of_char d :: nat) = of_char d"
      by (simp_all add: take_bit_nat_eq_self_iff)
  qed
  ultimately show ?thesis
    by (simp add: word_of_nat_eq_iff)
qed

lemma js_eq_iff [simp]: "js s = js t \<longleftrightarrow> s = t"
proof -
  have "inj (of_char :: char \<Rightarrow> 16 word)"
    by (rule injI) simp
  then show ?thesis
    by (simp add: js_def inj_map_eq_map)
qed

lemma js_append: "js s @ js t = js (s @ t)"
  by (simp add: js_def)

lemma js_Nil_iff [simp]: "js s = [] \<longleftrightarrow> s = []" "[] = js s \<longleftrightarrow> s = []"
  by (auto simp: js_def)

section \<open>The fair queue: grouping\<close>

lemma first_seen_snoc:
  "first_seen (xs @ [x]) = (if x \<in> set xs then first_seen xs else first_seen xs @ [x])"
  by (simp add: first_seen_def)

lemma set_first_seen: "set (first_seen xs) = set xs"
  by (simp add: first_seen_def)

lemma distinct_first_seen: "distinct (first_seen xs)"
  by (simp add: first_seen_def)

lemma update_map_keyed:
  "k \<in> set ks \<Longrightarrow> distinct ks \<Longrightarrow>
   AList.update k v (map (\<lambda>r. (r, f r)) ks) = map (\<lambda>r. (r, if r = k then v else f r)) ks"
  by (induction ks) (auto simp: rev_image_eqI)

lemma update_fresh: "k \<notin> fst ` set al \<Longrightarrow> AList.update k v al = al @ [(k, v)]"
  by (induction al) auto

lemma update_snoc_same:
  "k \<notin> fst ` set al \<Longrightarrow> AList.update k v (al @ [(k, w)]) = al @ [(k, v)]"
  by (induction al) auto

lemma map_of_keyed: "map_of (map (\<lambda>r. (r, f r)) ks) k = (if k \<in> set ks then Some (f k) else None)"
  by (induction ks) auto

lemma group_step_groups_of: "group_step (groups_of ts) t = groups_of (ts @ [t])"
proof (cases "rid t \<in> set (map rid ts)")
  case True
  then have "rid t \<in> set (first_seen (map rid ts))"
    by (simp add: set_first_seen)
  then show ?thesis using True
    by (simp add: group_step_def groups_of_def map_has_def map_get_def map_set_def
        map_of_keyed update_map_keyed first_seen_snoc set_first_seen distinct_first_seen Let_def)
next
  case False
  then have nokey: "rid t \<notin> fst ` set (groups_of ts)"
    by (auto simp: groups_of_def set_first_seen)
  have empty: "filter (\<lambda>u. rid u = rid t) ts = []"
    using False by (induction ts) auto
  have same: "map (\<lambda>r. (r, filter (\<lambda>u. rid u = r) (ts @ [t]))) (first_seen (map rid ts))
      = groups_of ts"
    using False by (auto simp: groups_of_def set_first_seen)
  have none: "map_of (groups_of ts) (rid t) = None"
    using nokey by (simp add: map_of_eq_None_iff)
  have m1: "map_set (groups_of ts) (rid t) [] = groups_of ts @ [(rid t, [])]"
    using nokey by (simp add: map_set_def update_fresh)
  have got: "map_get (groups_of ts @ [(rid t, [])]) (rid t) = Some []"
    using none by (simp add: map_get_def map_add_def)
  have "group_step (groups_of ts) t = AList.update (rid t) [t] (groups_of ts @ [(rid t, [])])"
    using none by (simp add: group_step_def map_has_def Let_def m1 got) (simp add: map_set_def)
  also have "\<dots> = groups_of ts @ [(rid t, [t])]"
    using nokey by (rule update_snoc_same)
  finally show ?thesis
    using False same empty by (simp add: groups_of_def first_seen_snoc)
qed

lemma group_tracks_eq: "group_tracks ts = groups_of ts"
proof (induction ts rule: rev_induct)
  case Nil
  show ?case by (simp add: group_tracks_def groups_of_def first_seen_def)
next
  case (snoc t ts)
  then show ?case by (simp add: group_tracks_def group_step_groups_of)
qed

section \<open>The fair queue: one pass, and the loop\<close>

lemma nth_round_Nil: "nth_round k [] = []"
  by (simp add: nth_round_def)

lemma nth_round_Cons:
  "nth_round k (e # es) = (if k < length (snd e) then [snd e ! k] else []) @ nth_round k es"
  by (simp add: nth_round_def)

lemma nth_round_append: "nth_round k (es @ fs) = nth_round k es @ nth_round k fs"
  by (simp add: nth_round_def)

lemma rounds_upto_0: "rounds_upto 0 gs = []"
  by (simp add: rounds_upto_def)

lemma rounds_upto_Suc: "rounds_upto (Suc k) gs = rounds_upto k gs @ nth_round k gs"
  by (simp add: rounds_upto_def)

lemma init_indices_aux:
  "map_of (foldl (\<lambda>m k. map_set m k (0::nat)) acc ks) r
     = (if r \<in> set ks then Some 0 else map_of acc r)"
  by (induction ks arbitrary: acc) (auto simp: map_set_def update_conv')

lemma map_of_init_indices:
  "map_of (init_indices gs) r = (if r \<in> fst ` set gs then Some 0 else None)"
  by (simp add: init_indices_def init_indices_aux)

lemma round_pass_round:
  assumes "distinct (map fst es)"
    and "\<forall>e\<in>set es. map_of idx (fst e) = Some (min k (length (snd e)))"
  shows "\<exists>idx'. foldl pass_step (fq, idx, added) es
            = (fq @ nth_round k es, idx', added + length (nth_round k es))
          \<and> (\<forall>e\<in>set es. map_of idx' (fst e) = Some (min (Suc k) (length (snd e))))
          \<and> (\<forall>r. r \<notin> fst ` set es \<longrightarrow> map_of idx' r = map_of idx r)"
  using assms
proof (induction es arbitrary: fq idx added)
  case Nil
  show ?case by (simp add: nth_round_Nil)
next
  case (Cons e es)
  obtain r g where e: "e = (r, g)" by (cases e)
  have rfresh: "r \<notin> fst ` set es" and dist: "distinct (map fst es)"
    using Cons.prems(1) by (auto simp: e)
  have cur: "map_of idx r = Some (min k (length g))"
    using Cons.prems(2) by (simp add: e)
  show ?case
  proof (cases "k < length g")
    case True
    let ?idx1 = "AList.update r (Suc k) idx"
    have step: "pass_step (fq, idx, added) (r, g) = (fq @ [g ! k], ?idx1, Suc added)"
      using cur True by (simp add: pass_step_def map_get_def map_set_def min_def)
    have inv1: "\<forall>e'\<in>set es. map_of ?idx1 (fst e') = Some (min k (length (snd e')))"
      using Cons.prems(2) rfresh by (auto simp: update_conv')
    from Cons.IH [OF dist inv1, of "fq @ [g ! k]" "Suc added"]
    obtain idx' where
      run: "foldl pass_step (fq @ [g ! k], ?idx1, Suc added) es
              = ((fq @ [g ! k]) @ nth_round k es, idx', Suc added + length (nth_round k es))"
      and inv': "\<forall>e'\<in>set es. map_of idx' (fst e') = Some (min (Suc k) (length (snd e')))"
      and frame: "\<forall>r'. r' \<notin> fst ` set es \<longrightarrow> map_of idx' r' = map_of ?idx1 r'"
      by blast
    have "map_of idx' r = Some (min (Suc k) (length g))"
      using frame rfresh True by (simp add: update_conv')
    moreover have "\<forall>r'. r' \<notin> fst ` set (e # es) \<longrightarrow> map_of idx' r' = map_of idx r'"
      using frame by (auto simp: e update_conv')
    ultimately show ?thesis
      using run inv' True by (intro exI [of _ idx']) (simp add: step nth_round_Cons e)
  next
    case False
    have step: "pass_step (fq, idx, added) (r, g) = (fq, idx, added)"
      using cur False by (simp add: pass_step_def map_get_def min_def)
    have inv1: "\<forall>e'\<in>set es. map_of idx (fst e') = Some (min k (length (snd e')))"
      using Cons.prems(2) by simp
    from Cons.IH [OF dist inv1, of fq added]
    obtain idx' where
      run: "foldl pass_step (fq, idx, added) es
              = (fq @ nth_round k es, idx', added + length (nth_round k es))"
      and inv': "\<forall>e'\<in>set es. map_of idx' (fst e') = Some (min (Suc k) (length (snd e')))"
      and frame: "\<forall>r'. r' \<notin> fst ` set es \<longrightarrow> map_of idx' r' = map_of idx r'"
      by blast
    have "map_of idx' r = Some (min (Suc k) (length g))"
      using frame rfresh False cur by (simp add: min_def)
    moreover have "\<forall>r'. r' \<notin> fst ` set (e # es) \<longrightarrow> map_of idx' r' = map_of idx r'"
      using frame by (auto simp: e)
    ultimately show ?thesis
      using run inv' False by (intro exI [of _ idx']) (simp add: step nth_round_Cons e)
  qed
qed

lemma rounds_upto_le:
  "k \<le> m \<Longrightarrow> \<exists>rest. rounds_upto m gs = rounds_upto k gs @ rest"
proof (induction m)
  case 0
  then show ?case by simp
next
  case (Suc m)
  show ?case
  proof (cases "k = Suc m")
    case True
    then show ?thesis by simp
  next
    case False
    with Suc.prems have "k \<le> m" by simp
    from Suc.IH [OF this] obtain rest where "rounds_upto m gs = rounds_upto k gs @ rest" ..
    then show ?thesis by (simp add: rounds_upto_Suc)
  qed
qed

lemma build_loop_rounds:
  assumes dist: "distinct (map fst gs)"
    and n: "n = length (rounds_upto m gs)"
  shows "k \<le> m \<Longrightarrow>
         \<forall>e\<in>set gs. map_of idx (fst e) = Some (min k (length (snd e))) \<Longrightarrow>
         \<exists>idx'. build_loop n gs (rounds_upto k gs, idx, length (rounds_upto k gs))
                  = Some (rounds_upto m gs, idx', n)"
proof (induction "m - k" arbitrary: k idx)
  case 0
  then have "k = m" by simp
  then show ?case
    by (subst build_loop.simps) (simp add: n)
next
  case (Suc d)
  then have km: "Suc k \<le> m" and d: "d = m - Suc k" by simp_all
  show ?case
  proof (cases "length (rounds_upto k gs) < n")
    case True
    from round_pass_round [OF dist Suc.prems(2), of "rounds_upto k gs" "length (rounds_upto k gs)"]
    obtain idx1 where
      run: "round_pass gs (rounds_upto k gs, idx, length (rounds_upto k gs))
              = (rounds_upto (Suc k) gs, idx1, length (rounds_upto (Suc k) gs))"
      and inv: "\<forall>e\<in>set gs. map_of idx1 (fst e) = Some (min (Suc k) (length (snd e)))"
      by (auto simp: round_pass_def rounds_upto_Suc)
    from Suc.hyps(1) [OF d km inv] obtain idx' where
      "build_loop n gs (rounds_upto (Suc k) gs, idx1, length (rounds_upto (Suc k) gs))
         = Some (rounds_upto m gs, idx', n)" ..
    then show ?thesis
      using True run by (subst build_loop.simps) simp
  next
    case False
    from rounds_upto_le [of k m gs] Suc.prems(1) obtain rest
      where rest: "rounds_upto m gs = rounds_upto k gs @ rest" by blast
    with False n have "rest = []" by simp
    with rest have "rounds_upto k gs = rounds_upto m gs" by simp
    then show ?thesis
      using False by (subst build_loop.simps) (simp add: n)
  qed
qed

section \<open>The fair queue: the closed form and its properties\<close>

lemma take_Suc_if: "take (Suc m) g = take m g @ (if m < length g then [g ! m] else [])"
  by (simp add: take_Suc_conv_app_nth)

lemma mset_nth_round:
  "mset (nth_round k gs) = (\<Sum>e\<leftarrow>gs. if k < length (snd e) then {#snd e ! k#} else {#})"
  by (induction gs) (simp_all add: nth_round_Nil nth_round_Cons)

lemma mset_rounds_upto: "mset (rounds_upto m gs) = (\<Sum>e\<leftarrow>gs. mset (take m (snd e)))"
proof (induction m)
  case 0
  show ?case by (simp add: rounds_upto_0)
next
  case (Suc m)
  have "(\<Sum>e\<leftarrow>gs. mset (take (Suc m) (snd e)))
      = (\<Sum>e\<leftarrow>gs. mset (take m (snd e)) + (if m < length (snd e) then {#snd e ! m#} else {#}))"
    by (rule arg_cong [where f = sum_list], rule map_cong) (simp_all add: take_Suc_if)
  then show ?case
    by (simp add: rounds_upto_Suc Suc.IH mset_nth_round sum_list_addf)
qed

lemma sum_list_pick:
  "distinct ks \<Longrightarrow>
   (\<Sum>r\<leftarrow>ks. if k = r then {#a#} else {#}) = (if k \<in> set ks then {#a#} else {#})"
  by (induction ks) auto

lemma mset_by_requester:
  "distinct ks \<Longrightarrow> rid ` set ts \<subseteq> set ks \<Longrightarrow>
   (\<Sum>r\<leftarrow>ks. mset (filter (\<lambda>t. rid t = r) ts)) = mset ts"
proof (induction ts)
  case Nil
  show ?case by (induction ks) simp_all
next
  case (Cons t ts)
  have "(\<Sum>r\<leftarrow>ks. mset (filter (\<lambda>u. rid u = r) (t # ts)))
      = (\<Sum>r\<leftarrow>ks. (if rid t = r then {#t#} else {#}) + mset (filter (\<lambda>u. rid u = r) ts))"
    by (rule arg_cong [where f = sum_list], rule map_cong) simp_all
  also have "\<dots> = {#t#} + mset ts"
    using Cons by (simp add: sum_list_addf sum_list_pick)
  finally show ?case by simp
qed

lemma distinct_groups_of: "distinct (map fst (groups_of ts))"
  by (simp add: groups_of_def comp_def distinct_first_seen)

lemma groups_of_member:
  "e \<in> set (groups_of ts) \<Longrightarrow> snd e = filter (\<lambda>t. rid t = fst e) ts"
  by (auto simp: groups_of_def)

lemma groups_of_length: "e \<in> set (groups_of ts) \<Longrightarrow> length (snd e) \<le> length ts"
  by (simp add: groups_of_member)

lemma groups_of_rid: "e \<in> set (groups_of ts) \<Longrightarrow> t \<in> set (snd e) \<Longrightarrow> rid t = fst e"
  by (simp add: groups_of_member)

lemma map_of_groups_of:
  "map_of (groups_of ts) r
     = (if r \<in> rid ` set ts then Some (filter (\<lambda>t. rid t = r) ts) else None)"
  by (simp add: groups_of_def map_of_keyed set_first_seen)

lemma mset_groups_of: "(\<Sum>e\<leftarrow>groups_of ts. mset (snd e)) = mset ts"
proof -
  have "(\<Sum>e\<leftarrow>groups_of ts. mset (snd e))
      = (\<Sum>r\<leftarrow>first_seen (map rid ts). mset (filter (\<lambda>t. rid t = r) ts))"
    by (simp add: groups_of_def comp_def)
  also have "\<dots> = mset ts"
    by (rule mset_by_requester) (simp_all add: distinct_first_seen set_first_seen)
  finally show ?thesis .
qed

lemma mset_fair_order: "mset (fair_order ts) = mset ts"
proof -
  have "(\<Sum>e\<leftarrow>groups_of ts. mset (take (length ts) (snd e))) = (\<Sum>e\<leftarrow>groups_of ts. mset (snd e))"
    by (rule arg_cong [where f = sum_list], rule map_cong) (simp_all add: groups_of_length)
  then show ?thesis
    by (simp add: fair_order_def mset_rounds_upto mset_groups_of)
qed

lemma length_fair_order: "length (fair_order ts) = length ts"
  using mset_fair_order [of ts] by (metis size_mset)

lemma filter_nth_round:
  assumes "distinct (map fst gs)"
    and "\<forall>e\<in>set gs. \<forall>t\<in>set (snd e). rid t = fst e"
  shows "filter (\<lambda>t. rid t = R) (nth_round k gs)
           = (case map_of gs R of None \<Rightarrow> [] | Some g \<Rightarrow> if k < length g then [g ! k] else [])"
  using assms
proof (induction gs)
  case Nil
  show ?case by (simp add: nth_round_Nil)
next
  case (Cons e gs)
  obtain r g where e: "e = (r, g)" by (cases e)
  have IH: "filter (\<lambda>t. rid t = R) (nth_round k gs)
           = (case map_of gs R of None \<Rightarrow> [] | Some g \<Rightarrow> if k < length g then [g ! k] else [])"
    using Cons by simp
  have own: "k < length g \<Longrightarrow> rid (g ! k) = r"
    using Cons.prems(2) by (simp add: e)
  show ?case
  proof (cases "r = R")
    case True
    then have "map_of gs R = None"
      using Cons.prems(1) by (simp add: e map_of_eq_None_iff)
    then show ?thesis
      using True own by (simp add: nth_round_Cons e IH)
  next
    case False
    then show ?thesis
      using own by (simp add: nth_round_Cons e IH)
  qed
qed

lemma filter_rounds_upto:
  assumes "distinct (map fst gs)"
    and "\<forall>e\<in>set gs. \<forall>t\<in>set (snd e). rid t = fst e"
  shows "filter (\<lambda>t. rid t = R) (rounds_upto m gs)
           = (case map_of gs R of None \<Rightarrow> [] | Some g \<Rightarrow> take m g)"
proof (induction m)
  case 0
  show ?case by (simp add: rounds_upto_0 split: option.split)
next
  case (Suc m)
  show ?case
    by (simp add: rounds_upto_Suc Suc filter_nth_round [OF assms] take_Suc_if split: option.split)
qed

lemma filter_fair_order:
  "filter (\<lambda>t. rid t = R) (fair_order ts) = filter (\<lambda>t. rid t = R) ts"
proof -
  have wf: "\<forall>e\<in>set (groups_of ts). \<forall>t\<in>set (snd e). rid t = fst e"
    by (simp add: groups_of_member)
  have none: "R \<notin> rid ` set ts \<Longrightarrow> filter (\<lambda>t. rid t = R) ts = []"
    by (induction ts) auto
  show ?thesis
    unfolding fair_order_def filter_rounds_upto [OF distinct_groups_of wf]
    by (simp add: map_of_groups_of none)
qed

lemma applyFairPlayToQueue_eq:
  "applyFairPlayToQueue p =
     Some (p\<lparr>queue_tracks := fair_order (queue_tracks p),
             calls := calls p @ [QueueSplice 0 (length (queue_tracks p)),
                                 QueueAdd (fair_order (queue_tracks p))]\<rparr>,
           fair_order (queue_tracks p))"
proof -
  let ?ts = "queue_tracks p"
  let ?gs = "groups_of ?ts"
  have n: "length ?ts = length (rounds_upto (length ?ts) ?gs)"
    using length_fair_order [of ?ts] by (simp add: fair_order_def)
  have inv: "\<forall>e\<in>set ?gs. map_of (init_indices ?gs) (fst e) = Some (min 0 (length (snd e)))"
    by (simp add: map_of_init_indices)
  from build_loop_rounds [OF distinct_groups_of n _ inv]
  obtain idx' where
    "build_loop (length ?ts) ?gs ([], init_indices ?gs, 0)
       = Some (fair_order ?ts, idx', length ?ts)"
    by (auto simp: rounds_upto_0 fair_order_def)
  then show ?thesis
    by (simp add: applyFairPlayToQueue_def group_tracks_eq Let_def queue_splice_def queue_add_def)
qed

text \<open>
  C1. For every queue, the function returns, and the returned sequence is a permutation of
  the queue it read: the same multiset of tracks (nothing added, removed or duplicated),
  hence the same length.
\<close>

theorem fair_queue_permutation:
  "\<exists>p' out. applyFairPlayToQueue p = Some (p', out)
     \<and> mset out = mset (queue_tracks p)
     \<and> length out = length (queue_tracks p)"
  by (simp add: applyFairPlayToQueue_eq mset_fair_order length_fair_order)

text \<open>
  C2. For every queue and every requester id \<open>R\<close>, the tracks of \<open>R\<close> in the returned
  sequence are the tracks of \<open>R\<close> in the queue, in the same order.
\<close>

theorem fair_queue_requester_order:
  "\<exists>p' out. applyFairPlayToQueue p = Some (p', out)
     \<and> (\<forall>R. filter (\<lambda>t. req_id (requester t) = R) out
            = filter (\<lambda>t. req_id (requester t) = R) (queue_tracks p))"
  using filter_fair_order [of _ "queue_tracks p"]
  by (simp add: applyFairPlayToQueue_eq rid_def)

section \<open>The fair queue: what lies between two tracks of one requester\<close>

lemma split_unique:
  "p1 @ a # s1 = p2 @ b # s2 \<Longrightarrow> P a \<Longrightarrow> P b \<Longrightarrow>
   length (filter P p1) = length (filter P p2) \<Longrightarrow> p1 = p2 \<and> a = b \<and> s1 = s2"
proof (induction p1 arbitrary: p2)
  case Nil
  then show ?case by (cases p2) auto
next
  case (Cons x p1)
  show ?case
  proof (cases p2)
    case Nil
    with Cons.prems show ?thesis by auto
  next
    case (Cons y p2')
    with Cons.prems have "p1 @ a # s1 = p2' @ b # s2" and "x = y"
      and "length (filter P p1) = length (filter P p2')"
      by (auto split: if_splits)
    with Cons.IH [of p2'] Cons.prems(2,3) show ?thesis
      using Cons by simp
  qed
qed

lemma filter_nth_round_absent:
  assumes "\<forall>e\<in>set gs. \<forall>t\<in>set (snd e). rid t = fst e" and "Z \<notin> fst ` set gs"
  shows "filter (\<lambda>t. rid t = Z) (nth_round k gs) = []"
  using assms
proof (induction gs)
  case Nil
  show ?case by (simp add: nth_round_Nil)
next
  case (Cons e gs)
  then show ?case by (auto simp: nth_round_Cons)
qed

lemma filter_nth_round_present:
  assumes "distinct (map fst gs)"
    and "\<forall>e\<in>set gs. \<forall>t\<in>set (snd e). rid t = fst e"
    and "(Z, g) \<in> set gs"
  shows "filter (\<lambda>t. rid t = Z) (nth_round k gs) = (if k < length g then [g ! k] else [])"
  using filter_nth_round [OF assms(1,2), of Z k] assms(1,3) by simp

lemma filter_rounds_upto_present:
  assumes "distinct (map fst gs)"
    and "\<forall>e\<in>set gs. \<forall>t\<in>set (snd e). rid t = fst e"
    and "(Z, g) \<in> set gs"
  shows "filter (\<lambda>t. rid t = Z) (rounds_upto m gs) = take m g"
  using filter_rounds_upto [OF assms(1,2), of Z m] assms(1,3) by simp

lemma rounds_member_key:
  assumes "distinct (map fst gs)"
    and "\<forall>e\<in>set gs. \<forall>t\<in>set (snd e). rid t = fst e"
    and "x \<in> set (rounds_upto m gs)"
  shows "\<exists>g. (rid x, g) \<in> set gs"
proof -
  have "filter (\<lambda>t. rid t = rid x) (rounds_upto m gs) \<noteq> []"
    using assms(3) by (auto simp: filter_empty_conv)
  then have "map_of gs (rid x) \<noteq> None"
    by (auto simp: filter_rounds_upto [OF assms(1,2)] split: option.splits)
  then show ?thesis
    by (auto dest: map_of_SomeD)
qed

lemma between_rounds:
  assumes dist: "distinct (map fst gs)"
    and wf: "\<forall>e\<in>set gs. \<forall>t\<in>set (snd e). rid t = fst e"
    and len: "\<forall>e\<in>set gs. length (snd e) \<le> m"
    and dec: "rounds_upto m gs = pre @ [t] @ mid @ [t'] @ post"
    and same: "rid t = rid t'"
    and gap: "\<forall>x\<in>set mid. rid x \<noteq> rid t"
    and Z: "Z \<noteq> rid t"
    and rem: "\<exists>x\<in>set (mid @ post). rid x = Z"
  shows "length (filter (\<lambda>x. rid x = Z) mid) = 1"
proof -
  let ?R = "rid t"
  let ?out = "rounds_upto m gs"
  have gapR: "filter (\<lambda>x. rid x = ?R) mid = []"
    using gap by (simp add: filter_empty_conv)
  \<comment> \<open>the group of the requester of \<open>t\<close>\<close>
  have "t \<in> set ?out" by (simp add: dec)
  from rounds_member_key [OF dist wf this] obtain g where g: "(?R, g) \<in> set gs" ..
  have glen: "length g \<le> m" using len g by force
  have "filter (\<lambda>x. rid x = ?R) ?out = g"
    using filter_rounds_upto_present [OF dist wf g, of m] glen by simp
  then have gdec: "g = filter (\<lambda>x. rid x = ?R) pre @ [t, t'] @ filter (\<lambda>x. rid x = ?R) post"
    using same gapR by (simp add: dec)
  define k where "k = length (filter (\<lambda>x. rid x = ?R) pre)"
  have "(filter (\<lambda>x. rid x = ?R) pre @ [t, t'] @ filter (\<lambda>x. rid x = ?R) post) ! k = t"
    and "(filter (\<lambda>x. rid x = ?R) pre @ [t, t'] @ filter (\<lambda>x. rid x = ?R) post) ! Suc k = t'"
    and "Suc k < length (filter (\<lambda>x. rid x = ?R) pre @ [t, t'] @ filter (\<lambda>x. rid x = ?R) post)"
    by (simp_all add: k_def nth_append)
  then have gk: "g ! k = t" and gk1: "g ! Suc k = t'" and klen: "Suc k < length g"
    by (simp_all only: gdec [symmetric])
  \<comment> \<open>the groups before and after it\<close>
  from g obtain G1 G2 where split: "gs = G1 @ (?R, g) # G2"
    by (auto dest: split_list)
  have d1: "distinct (map fst G1)" and d2: "distinct (map fst G2)"
    and R1: "?R \<notin> fst ` set G1" and R2: "?R \<notin> fst ` set G2"
    and disj: "fst ` set G1 \<inter> fst ` set G2 = {}"
    using dist by (auto simp: split)
  have wf1: "\<forall>e\<in>set G1. \<forall>t\<in>set (snd e). rid t = fst e"
    and wf2: "\<forall>e\<in>set G2. \<forall>t\<in>set (snd e). rid t = fst e"
    using wf by (auto simp: split)
  have rk: "nth_round k gs = nth_round k G1 @ t # nth_round k G2"
    using klen gk by (simp add: split nth_round_append nth_round_Cons)
  have rk1: "nth_round (Suc k) gs = nth_round (Suc k) G1 @ t' # nth_round (Suc k) G2"
    using klen gk1 by (simp add: split nth_round_append nth_round_Cons)
  have "Suc (Suc k) \<le> m" using klen glen by simp
  from rounds_upto_le [OF this, of gs] obtain rest
    where rest: "?out = rounds_upto (Suc (Suc k)) gs @ rest" ..
  define pre' where "pre' = rounds_upto k gs @ nth_round k G1"
  define mid' where "mid' = nth_round k G2 @ nth_round (Suc k) G1"
  define post' where "post' = nth_round (Suc k) G2 @ rest"
  have dec': "?out = pre' @ t # (mid' @ t' # post')"
    by (simp add: rest rounds_upto_Suc rk rk1 pre'_def mid'_def post'_def)
  have "filter (\<lambda>x. rid x = ?R) pre' = take k g"
    by (simp add: pre'_def filter_rounds_upto_present [OF dist wf g]
        filter_nth_round_absent [OF wf1 R1])
  then have cnt: "length (filter (\<lambda>x. rid x = ?R) pre') = length (filter (\<lambda>x. rid x = ?R) pre)"
    using klen by (simp add: k_def)
  have "pre' @ t # (mid' @ t' # post') = pre @ t # (mid @ t' # post)"
    using dec dec' by simp
  from split_unique [where P = "\<lambda>x. rid x = ?R", OF this refl refl cnt]
  have pre_eq: "pre' = pre" and tail: "mid' @ t' # post' = mid @ t' # post"
    by simp_all
  have "filter (\<lambda>x. rid x = ?R) mid' = []"
    by (simp add: mid'_def filter_nth_round_absent [OF wf1 R1] filter_nth_round_absent [OF wf2 R2])
  then have cnt2: "length (filter (\<lambda>x. rid x = ?R) mid') = length (filter (\<lambda>x. rid x = ?R) mid)"
    using gapR by simp
  have Pt': "rid t' = ?R" using same by simp
  from split_unique [where P = "\<lambda>x. rid x = ?R", OF tail Pt' Pt' cnt2]
  have mid_eq: "mid' = mid" ..
  \<comment> \<open>the other requester\<close>
  from rem obtain x where x: "x \<in> set (mid @ post)" and xZ: "rid x = Z" by blast
  have "x \<in> set ?out" using x by (auto simp: dec)
  from rounds_member_key [OF dist wf this] xZ obtain gz where gz: "(Z, gz) \<in> set gs" by auto
  have "length gz \<le> m" using len gz by force
  then have "filter (\<lambda>x. rid x = Z) ?out = gz"
    using filter_rounds_upto_present [OF dist wf gz, of m] by simp
  then have "gz = filter (\<lambda>x. rid x = Z) pre @ filter (\<lambda>x. rid x = Z) (mid @ post)"
    using Z same by (simp add: dec)
  moreover have "filter (\<lambda>x. rid x = Z) (mid @ post) \<noteq> []"
    using x xZ by (simp only: filter_empty_conv) blast
  ultimately have more: "length (filter (\<lambda>x. rid x = Z) pre) < length gz"
    by (metis length_append length_greater_0_conv less_add_same_cancel1)
  have preZ: "filter (\<lambda>x. rid x = Z) pre = take k gz @ filter (\<lambda>x. rid x = Z) (nth_round k G1)"
    by (simp add: pre_eq [symmetric] pre'_def filter_rounds_upto_present [OF dist wf gz])
  have midZ: "filter (\<lambda>x. rid x = Z) mid
      = filter (\<lambda>x. rid x = Z) (nth_round k G2) @ filter (\<lambda>x. rid x = Z) (nth_round (Suc k) G1)"
    by (simp add: mid_eq [symmetric] mid'_def)
  from gz Z have "(Z, gz) \<in> set G1 \<or> (Z, gz) \<in> set G2"
    by (auto simp: split)
  then show ?thesis
  proof
    assume in1: "(Z, gz) \<in> set G1"
    then have "Z \<notin> fst ` set G2" using disj by force
    then have none2: "filter (\<lambda>x. rid x = Z) (nth_round k G2) = []"
      by (rule filter_nth_round_absent [OF wf2])
    have "Suc k < length gz"
      using more by (simp add: preZ filter_nth_round_present [OF d1 wf1 in1] split: if_splits)
    then show ?thesis
      by (simp add: midZ none2 filter_nth_round_present [OF d1 wf1 in1])
  next
    assume in2: "(Z, gz) \<in> set G2"
    then have "Z \<notin> fst ` set G1" using disj by force
    then have none1: "\<And>j. filter (\<lambda>x. rid x = Z) (nth_round j G1) = []"
      by (rule filter_nth_round_absent [OF wf1])
    have "k < length gz"
      using more by (simp add: preZ none1)
    then show ?thesis
      by (simp add: midZ none1 filter_nth_round_present [OF d2 wf2 in2])
  qed
qed


lemma distinct_round:
  assumes "distinct (map fst gs)"
    and "\<forall>e\<in>set gs. \<forall>t\<in>set (snd e). rid t = fst e"
  shows "distinct (map rid (nth_round k gs))"
proof -
  have "map rid (nth_round k gs) = map fst (filter (\<lambda>e. k < length (snd e)) gs)"
    using assms(2) by (induction gs) (simp_all add: nth_round_Nil nth_round_Cons)
  then show ?thesis
    using assms(1) by (simp add: distinct_map_filter)
qed

lemma ex_rid: "rid (mk_track ttl rq) = req_id rq"
  by (simp add: rid_def mk_track_def)

lemma ex_fair_order: "fair_order ex_queue = ex_fair_queue"
  by (simp add: fair_order_def rounds_upto_def groups_of_def first_seen_def nth_round_def
      ex_queue_def ex_fair_queue_def ex_rid ex_alice_def ex_bob_def upt_rec)

lemma ex_apply:
  "applyFairPlayToQueue ex_player =
     Some (ex_player\<lparr>queue_tracks := ex_fair_queue,
                      calls := [QueueSplice 0 4, QueueAdd ex_fair_queue]\<rparr>, ex_fair_queue)"
  by (simp add: applyFairPlayToQueue_eq) (simp add: ex_player_def ex_fair_order, simp add: ex_queue_def)

text \<open>
  C3. The returned sequence is the concatenation of the rounds over the requester groups,
  the groups taken in the order in which their requesters first appear in the queue. No
  round holds two tracks of one requester (so none does either when other requesters still
  have tracks). And between two consecutive tracks of one requester in the result, every
  other requester that still has a track after the first of the two has exactly one track.
\<close>

theorem fair_queue_rounds:
  "\<exists>p' out. applyFairPlayToQueue p = Some (p', out)
     \<and> out = concat (map (\<lambda>k. nth_round k (groups_of (queue_tracks p)))
                [0..<length (queue_tracks p)])
     \<and> (\<forall>k. distinct (map rid (nth_round k (groups_of (queue_tracks p)))))
     \<and> (\<forall>pre t mid t' post Z.
           out = pre @ [t] @ mid @ [t'] @ post \<and> rid t = rid t'
           \<and> (\<forall>x\<in>set mid. rid x \<noteq> rid t)
           \<and> Z \<noteq> rid t \<and> (\<exists>x\<in>set (mid @ post). rid x = Z)
           \<longrightarrow> length (filter (\<lambda>x. rid x = Z) mid) = 1)"
proof -
  let ?ts = "queue_tracks p"
  have wf: "\<forall>e\<in>set (groups_of ?ts). \<forall>t\<in>set (snd e). rid t = fst e"
    by (simp add: groups_of_member)
  have len: "\<forall>e\<in>set (groups_of ?ts). length (snd e) \<le> length ?ts"
    by (simp add: groups_of_length)
  have "\<forall>k. distinct (map rid (nth_round k (groups_of ?ts)))"
    using distinct_round [OF distinct_groups_of wf] by blast
  moreover have "\<forall>pre t mid t' post Z.
           fair_order ?ts = pre @ [t] @ mid @ [t'] @ post \<and> rid t = rid t'
           \<and> (\<forall>x\<in>set mid. rid x \<noteq> rid t)
           \<and> Z \<noteq> rid t \<and> (\<exists>x\<in>set (mid @ post). rid x = Z)
           \<longrightarrow> length (filter (\<lambda>x. rid x = Z) mid) = 1"
    unfolding fair_order_def
    using between_rounds [OF distinct_groups_of wf len] by blast
  moreover have "fair_order ?ts
      = concat (map (\<lambda>k. nth_round k (groups_of ?ts)) [0..<length ?ts])"
    by (simp add: fair_order_def rounds_upto_def)
  ultimately show ?thesis
    by (simp add: applyFairPlayToQueue_eq)
qed

text \<open>
  The queue \<open>a1, a2, a3, b1\<close> becomes \<open>a1, b1, a2, a3\<close>: between \<open>a1\<close> and \<open>a2\<close> the other
  requester, who still has \<open>b1\<close>, has exactly that one track.
\<close>

theorem fair_queue_rounds_witness:
  "applyFairPlayToQueue ex_player =
     Some (ex_player\<lparr>queue_tracks := ex_fair_queue,
                      calls := [QueueSplice 0 4, QueueAdd ex_fair_queue]\<rparr>, ex_fair_queue)
   \<and> ex_fair_queue = [] @ [mk_track ''a1'' ex_alice] @ [mk_track ''b1'' ex_bob]
              @ [mk_track ''a2'' ex_alice] @ [mk_track ''a3'' ex_alice]
   \<and> rid (mk_track ''a1'' ex_alice) = rid (mk_track ''a2'' ex_alice)
   \<and> rid (mk_track ''b1'' ex_bob) \<noteq> rid (mk_track ''a1'' ex_alice)
   \<and> length (filter (\<lambda>x. rid x = rid (mk_track ''b1'' ex_bob)) [mk_track ''b1'' ex_bob]) = 1"
proof -
  from fair_queue_rounds [of ex_player] obtain p' out where
    ret: "applyFairPlayToQueue ex_player = Some (p', out)"
    and btw: "\<forall>pre t mid t' post Z.
           out = pre @ [t] @ mid @ [t'] @ post \<and> rid t = rid t'
           \<and> (\<forall>x\<in>set mid. rid x \<noteq> rid t)
           \<and> Z \<noteq> rid t \<and> (\<exists>x\<in>set (mid @ post). rid x = Z)
           \<longrightarrow> length (filter (\<lambda>x. rid x = Z) mid) = 1"
    by blast
  have out: "out = [] @ [mk_track ''a1'' ex_alice] @ [mk_track ''b1'' ex_bob]
              @ [mk_track ''a2'' ex_alice] @ [mk_track ''a3'' ex_alice]"
    using ret by (simp add: ex_apply ex_fair_queue_def)
  have ids: "rid (mk_track ''a1'' ex_alice) = rid (mk_track ''a2'' ex_alice)"
    "rid (mk_track ''b1'' ex_bob) \<noteq> rid (mk_track ''a1'' ex_alice)"
    by (simp_all add: ex_rid ex_alice_def ex_bob_def)
  from btw [rule_format, of "[]" "mk_track ''a1'' ex_alice" "[mk_track ''b1'' ex_bob]"
      "mk_track ''a2'' ex_alice" "[mk_track ''a3'' ex_alice]" "rid (mk_track ''b1'' ex_bob)"]
  have "length (filter (\<lambda>x. rid x = rid (mk_track ''b1'' ex_bob)) [mk_track ''b1'' ex_bob]) = 1"
    using out ids by simp
  then show ?thesis
    using ids by (simp add: ex_apply) (simp add: ex_fair_queue_def)
qed

text \<open>
  C4, as the code has it. The ordering is a function of the tracks read from the queue and
  of nothing else; but the function itself then replaces the queue's contents with that
  ordering, by one \<^verbatim>\<open>splice(0, length)\<close> followed by one \<^verbatim>\<open>add\<close> of the whole
  ordering, and returns the ordering. The rest of the player is left as it was.
\<close>

theorem fair_queue_mutates_queue:
  "\<exists>p' out. applyFairPlayToQueue p = Some (p', out)
     \<and> out = fair_order (queue_tracks p)
     \<and> queue_tracks p' = out
     \<and> calls p' = calls p @ [QueueSplice 0 (length (queue_tracks p)), QueueAdd out]
     \<and> autoplay p' = autoplay p \<and> playing p' = playing p"
  by (simp add: applyFairPlayToQueue_eq)

text \<open>
  On the sample queue the player's queue after the call differs from the queue before it,
  and the call has used \<^verbatim>\<open>splice\<close> and \<^verbatim>\<open>add\<close> on it: the function is not free of
  effects on the external queue.
\<close>

theorem fair_queue_pure_counterexample:
  "applyFairPlayToQueue ex_player =
     Some (ex_player\<lparr>queue_tracks := ex_fair_queue,
                      calls := [QueueSplice 0 4, QueueAdd ex_fair_queue]\<rparr>, ex_fair_queue)
   \<and> queue_tracks (ex_player\<lparr>queue_tracks := ex_fair_queue,
                      calls := [QueueSplice 0 4, QueueAdd ex_fair_queue]\<rparr>)
       \<noteq> queue_tracks ex_player
   \<and> calls (ex_player\<lparr>queue_tracks := ex_fair_queue,
                      calls := [QueueSplice 0 4, QueueAdd ex_fair_queue]\<rparr>)
       \<noteq> calls ex_player"
  by (simp add: ex_apply) (simp add: ex_player_def ex_queue_def ex_fair_queue_def mk_track_def)

section \<open>The fair queue: termination of the loop\<close>





lemma ex_groups:
  "group_tracks ex_queue =
     [(js ''1'', [mk_track ''a1'' ex_alice, mk_track ''a2'' ex_alice, mk_track ''a3'' ex_alice]),
      (js ''2'', [mk_track ''b1'' ex_bob])]"
  by (simp add: group_tracks_def ex_queue_def group_step_def map_has_def map_get_def map_set_def
      ex_rid ex_alice_def ex_bob_def Let_def)




section \<open>Autoplay: literals and well-formed strings\<close>

lemma unat_of_char: "unat (of_char c :: 16 word) = of_char c"
proof -
  have "(of_char c :: 16 word) = of_nat (of_char c)"
    by (simp add: of_nat_of_char)
  moreover have "(of_char c :: nat) < 65536"
    using of_char_lt [of c] by linarith
  ultimately show ?thesis
    by (simp add: unat_of_nat)
qed

lemma of_char_no_surrogate: "\<not> is_high (of_char c)" "\<not> is_low (of_char c)"
proof -
  have small: "unat (of_char c :: 16 word) < 256"
    by (simp add: unat_of_char of_char_lt)
  have "\<not> (n :: 16 word) \<le> of_char c" if "256 \<le> unat n" for n
  proof
    assume "n \<le> of_char c"
    then have "unat n \<le> unat (of_char c :: 16 word)"
      by (simp add: word_le_nat_alt)
    with small that show False by simp
  qed
  from this [of 55296] this [of 56320]
  show "\<not> is_high (of_char c)" "\<not> is_low (of_char c)"
    by (simp_all add: is_high_def is_low_def)
qed

lemma well_formed_js: "well_formed (js s)"
  by (induction s rule: induct_list012) (simp_all add: js_def of_char_no_surrogate)

section \<open>Autoplay: the lookup and the shape of a run\<close>

lemma getSimilar_eq:
  "getSimilarTracksFromLastFm sv a t
     = (fst (lastfm_try sv a t),
        Inr (case snd (lastfm_try sv a t) of Inl e \<Rightarrow> [] | Inr cs \<Rightarrow> cs))"
  by (cases "lastfm_try sv a t")
     (simp add: getSimilarTracksFromLastFm_def split: sum.splits)

lemma getSimilar_snd:
  "snd (getSimilarTracksFromLastFm sv (author (info lt)) (title (info lt)))
     = Inr (similarTracks_of sv lt)"
  by (simp add: similarTracks_of_def getSimilar_eq)

lemma lookup_calls_network: "c \<in> set (lookup_calls sv lt) \<Longrightarrow> network_call c"
  by (auto simp: lookup_calls_def getSimilar_eq lastfm_try_def split: option.splits if_splits)

lemma search_calls_network: "c \<in> set (concat (map search_calls cs)) \<Longrightarrow> network_call c"
  by (auto simp: search_calls_def split: sum.splits)

lemma enqueue_and_play_calls:
  "calls (enqueue_and_play ts q)
     = calls q @ QueueAdd ts # (if \<not> playing q \<and> queue_tracks q @ ts \<noteq> [] then [Play] else [])"
  by (simp add: enqueue_and_play_def queue_add_def player_play_def Let_def)

lemma enqueue_and_play_queue:
  "queue_tracks (enqueue_and_play ts q) = queue_tracks q @ ts"
  by (simp add: enqueue_and_play_def queue_add_def player_play_def Let_def)

lemma enqueue_and_play_autoplay:
  "autoplay (enqueue_and_play ts q) = autoplay q"
  by (simp add: enqueue_and_play_def queue_add_def player_play_def Let_def)

lemma fallback_path_eq:
  "fallback_path sv lt q =
     (let q1 = q\<lparr>calls := calls q @ [Search (artistQuery lt) (js ''ytmsearch'')]\<rparr>;
          cl = map tag_autoplay (take 3 (usable_fallback sv lt))
      in if cl = [] then q1 else enqueue_and_play cl q1)"
  by (simp add: fallback_path_def usable_fallback_def cleanedTracks_def Let_def
      split: option.splits)

lemma autoPlayFunction_on:
  assumes "autoplay p"
  shows "autoPlayFunction sv p (Some lt) =
     Inr (let sim = similarTracks_of sv lt;
              p1 = p\<lparr>calls := calls p @ lookup_calls sv lt\<rparr>
          in if sim = [] then fallback_path sv lt p1
             else (let p2 = p1\<lparr>calls := calls p1 @
                              concat (map search_calls (take 10 sim))\<rparr>
                   in if foundTracks sv lt sim = [] then fallback_path sv lt p2
                      else enqueue_and_play (foundTracks sv lt sim) p2))"
proof -
  obtain made where g: "getSimilarTracksFromLastFm sv (author (info lt)) (title (info lt))
      = (made, Inr (similarTracks_of sv lt))"
    using getSimilar_snd [of sv lt]
    by (cases "getSimilarTracksFromLastFm sv (author (info lt)) (title (info lt))") simp
  then have "lookup_calls sv lt = made"
    by (simp add: lookup_calls_def)
  then show ?thesis
    using assms g by (simp add: autoPlayFunction_def bind_exn_def Let_def)
qed

subsection \<open>The title test\<close>

lemma str_includes_sublist: "str_includes s sub = sublist sub s"
  by (induction s) (simp_all add: sublist_Cons_right)

lemma sublist_of_map: "sublist sub (map f s) \<longleftrightarrow> (\<exists>u. sublist u s \<and> map f u = sub)"
proof
  assume "sublist sub (map f s)"
  then show "\<exists>u. sublist u s \<and> map f u = sub"
    by (auto dest: sublist_map_rightE)
next
  assume "\<exists>u. sublist u s \<and> map f u = sub"
  then obtain u ps ss where "s = ps @ u @ ss" and "map f u = sub"
    by (auto simp: sublist_def)
  then have "map f s = map f ps @ sub @ map f ss" by simp
  then show "sublist sub (map f s)"
    unfolding sublist_def by blast
qed

lemma lyric_free_iff:
  "lyric_free sv t \<longleftrightarrow>
     \<not> sublist (js ''lyric'') (toLowerCase sv (title (info t)))
     \<and> \<not> sublist (js ''lyrics'') (toLowerCase sv (title (info t)))"
  by (auto simp: lyric_free_def Let_def str_includes_sublist)

lemma lyric_free_unitwise:
  assumes "lyric_free sv t"
    and "toLowerCase sv (title (info t)) = map f (title (info t))"
    and "sublist u (title (info t))"
  shows "map f u \<noteq> js ''lyric'' \<and> map f u \<noteq> js ''lyrics''"
  using assms by (auto simp: lyric_free_iff sublist_of_map)

lemma tag_autoplay_info: "info (tag_autoplay t) = info t"
  by (simp add: tag_autoplay_def Let_def)

lemma tag_autoplay_requester: "requester (tag_autoplay t) = requester t"
  by (simp add: tag_autoplay_def Let_def)

lemma lyric_free_tag: "lyric_free sv (tag_autoplay t) = lyric_free sv t"
  by (simp add: lyric_free_def tag_autoplay_info)

lemma tag_autoplay_plugin:
  "pluginInfo (tag_autoplay t) =
     Some \<lparr>clientData = Some (AList.update (js ''fromAutoplay'') (JBool True) (client_data_of t)),
           other_props = other_props_of t\<rparr>"
  by (simp add: tag_autoplay_def client_data_of_def other_props_of_def Let_def
      split: option.splits)

lemma foundTracks_lyric_free: "t \<in> set (foundTracks sv lt sim) \<Longrightarrow> lyric_free sv t"
  by (auto simp: foundTracks_def lyric_free_tag dest: in_set_takeD)

lemma fallback_lyric_free:
  "t \<in> set (map tag_autoplay (take 3 (usable_fallback sv lt))) \<Longrightarrow> lyric_free sv t"
  by (auto simp: usable_fallback_def lyric_free_tag dest: in_set_takeD)

subsection \<open>The calls of a run\<close>

text \<open>What a run with autoplay on and a last track does, as new calls and added tracks.\<close>

lemma autoplay_run:
  assumes "autoplay p"
  shows "\<exists>p' net added.
      autoPlayFunction sv p (Some lt) = Inr p'
    \<and> (\<forall>c\<in>set net. network_call c)
    \<and> calls p' = calls p @ net @
         (if added = [] then []
          else QueueAdd added # (if \<not> playing p then [Play] else []))
    \<and> queue_tracks p' = queue_tracks p @ added
    \<and> autoplay p' = autoplay p
    \<and> playing p' = (playing p \<or> added \<noteq> [])
    \<and> added = (if foundTracks sv lt (similarTracks_of sv lt) \<noteq> []
                then foundTracks sv lt (similarTracks_of sv lt)
                else map tag_autoplay (take 3 (usable_fallback sv lt)))"
proof -
  let ?sim = "similarTracks_of sv lt"
  let ?found = "foundTracks sv lt ?sim"
  let ?cl = "map tag_autoplay (take 3 (usable_fallback sv lt))"
  let ?srch = "concat (map search_calls (take 10 ?sim))"
  let ?fb = "Search (artistQuery lt) (js ''ytmsearch'')"
  have net1: "\<forall>c\<in>set (lookup_calls sv lt @ [?fb]). network_call c"
    by (auto dest: lookup_calls_network)
  have net2: "\<forall>c\<in>set (lookup_calls sv lt @ ?srch). network_call c"
    using search_calls_network [of _ "take 10 ?sim"] by (auto dest: lookup_calls_network)
  have net3: "\<forall>c\<in>set (lookup_calls sv lt @ ?srch @ [?fb]). network_call c"
    using search_calls_network [of _ "take 10 ?sim"] by (auto dest: lookup_calls_network)
  have found_nil: "?sim = [] \<Longrightarrow> ?found = []"
    by (simp add: foundTracks_def primary_hits_def)
  show ?thesis
  proof (cases "?sim = []")
    case True
    show ?thesis
      apply (rule exI [of _ "fallback_path sv lt (p\<lparr>calls := calls p @ lookup_calls sv lt\<rparr>)"])
      apply (rule exI [of _ "lookup_calls sv lt @ [?fb]"])
      apply (rule exI [of _ ?cl])
      using net1 True found_nil
      apply (simp add: autoPlayFunction_on [OF assms] Let_def fallback_path_eq
          enqueue_and_play_calls enqueue_and_play_queue enqueue_and_play_autoplay)
      apply (simp add: enqueue_and_play_def queue_add_def player_play_def Let_def)
      done
  next
    case False
    show ?thesis
    proof (cases "?found = []")
      case True
      show ?thesis
        apply (rule exI [of _ "fallback_path sv lt
            (p\<lparr>calls := calls p @ lookup_calls sv lt @ ?srch\<rparr>)"])
        apply (rule exI [of _ "lookup_calls sv lt @ ?srch @ [?fb]"])
        apply (rule exI [of _ ?cl])
        using net3 True False
        apply (simp add: autoPlayFunction_on [OF assms] Let_def fallback_path_eq
            enqueue_and_play_calls enqueue_and_play_queue enqueue_and_play_autoplay)
        apply (simp add: enqueue_and_play_def queue_add_def player_play_def Let_def)
        done
    next
      case nonempty: False
      show ?thesis
        apply (rule exI [of _ "enqueue_and_play ?found
            (p\<lparr>calls := calls p @ lookup_calls sv lt @ ?srch\<rparr>)"])
        apply (rule exI [of _ "lookup_calls sv lt @ ?srch"])
        apply (rule exI [of _ ?found])
        using net2 nonempty False
        apply (simp add: autoPlayFunction_on [OF assms] Let_def
            enqueue_and_play_calls enqueue_and_play_queue enqueue_and_play_autoplay)
        apply (simp add: enqueue_and_play_def queue_add_def player_play_def Let_def)
        done
    qed
  qed
qed

section \<open>Autoplay: the sample runs\<close>

lemma ex_last_fields:
  "author (info ex_last) = js ''Band''" "title (info ex_last) = js ''Hit''"
  "requester ex_last = ex_alice"
  by (simp_all add: ex_last_def mk_track_def)

lemma ex_title: "title (info (mk_track ttl rq)) = js ttl"
  by (simp add: mk_track_def)

lemma ex_lower_samples:
  "ex_lower (js ''Song (Lyrics)'') = js ''song (lyrics)''"
  "ex_lower (js ''Song'') = js ''song''"
  "ex_lower (js ''Other'') = js ''other''"
  "ex_lower (js ''Y (Lyrics)'') = js ''y (lyrics)''"
  "ex_lower (js ''Band LYRIC video'') = js ''band lyric video''"
  "ex_lower (js ''N'') = js ''n''"
  by (simp_all add: ex_lower_def js_def)

lemma includes_samples:
  "str_includes (js ''song (lyrics)'') (js ''lyric'')"
  "\<not> str_includes (js ''song'') (js ''lyric'')"
  "\<not> str_includes (js ''song'') (js ''lyrics'')"
  "\<not> str_includes (js ''other'') (js ''lyric'')"
  "\<not> str_includes (js ''other'') (js ''lyrics'')"
  "str_includes (js ''y (lyrics)'') (js ''lyric'')"
  "str_includes (js ''band lyric video'') (js ''lyric'')"
  "\<not> str_includes (js ''n'') (js ''lyric'')"
  "\<not> str_includes (js ''n'') (js ''lyrics'')"
  by (simp_all add: js_def)

subsection \<open>Last.fm answers null, the search knows three songs\<close>

lemma ex_sv:
  "LASTFM_API_KEY ex_services = Some (js ''key'')"
  "lastfm ex_services a t = JsonBody JNull"
  "search ex_services q src rq =
     (if q = js ''Band popular songs''
      then Inr [mk_track ''Song (Lyrics)'' rq, mk_track ''Song'' rq, mk_track ''Other'' rq]
      else Inl SearchError)"
  "toLowerCase ex_services = ex_lower"
  by (simp_all add: ex_services_def)

lemma ex_lyric_free:
  "\<not> lyric_free ex_services (mk_track ''Song (Lyrics)'' rq)"
  "lyric_free ex_services (mk_track ''Song'' rq)"
  "lyric_free ex_services (mk_track ''Other'' rq)"
  by (simp_all add: lyric_free_def ex_title ex_sv ex_lower_samples includes_samples)

lemma ex_lookup:
  "getSimilarTracksFromLastFm ex_services (js ''Band'') (js ''Hit'')
     = ([LastFmFetch (js ''Band'') (js ''Hit'')], Inr [])"
  by (simp add: getSimilarTracksFromLastFm_def lastfm_try_def ex_sv well_formed_js
      similar_from_data_def bind_exn_def)

lemma ex_similar: "similarTracks_of ex_services ex_last = []"
  by (simp add: similarTracks_of_def ex_last_fields ex_lookup)

lemma ex_lookup_calls: "lookup_calls ex_services ex_last = [LastFmFetch (js ''Band'') (js ''Hit'')]"
  by (simp add: lookup_calls_def ex_last_fields ex_lookup)

lemma ex_artistQuery: "artistQuery ex_last = js ''Band popular songs''"
  by (simp add: artistQuery_def ex_last_fields js_append)

lemma ex_usable:
  "usable_fallback ex_services ex_last = [mk_track ''Song'' ex_alice, mk_track ''Other'' ex_alice]"
  by (simp add: usable_fallback_def fallbackRes_def ex_sv ex_artistQuery
      ex_last_fields ex_lyric_free)

lemma ex_found: "foundTracks ex_services ex_last (similarTracks_of ex_services ex_last) = []"
  by (simp add: ex_similar foundTracks_def primary_hits_def)

lemma ex_run:
  "autoPlayFunction ex_services ex_auto_player (Some ex_last) =
     Inr \<lparr>autoplay = True, playing = True,
          queue_tracks = [tag_autoplay (mk_track ''Song'' ex_alice),
                          tag_autoplay (mk_track ''Other'' ex_alice)],
          calls = [LastFmFetch (js ''Band'') (js ''Hit''),
                   Search (js ''Band popular songs'') (js ''ytmsearch''),
                   QueueAdd [tag_autoplay (mk_track ''Song'' ex_alice),
                             tag_autoplay (mk_track ''Other'' ex_alice)],
                   Play]\<rparr>"
proof -
  have on: "autoplay ex_auto_player" by (simp add: ex_auto_player_def)
  show ?thesis
    by (simp add: autoPlayFunction_on [OF on] ex_similar fallback_path_eq ex_usable
        ex_lookup_calls Let_def ex_artistQuery enqueue_and_play_def queue_add_def
        player_play_def)
       (simp add: ex_auto_player_def)
qed

subsection \<open>Last.fm names a track, the searches find lyric videos only\<close>

lemma ex_ly_sv:
  "LASTFM_API_KEY ex_services_lyrics = Some (js ''key'')"
  "lastfm ex_services_lyrics a t = JsonBody ex_similar_body"
  "search ex_services_lyrics q src rq =
     (if q = js ''X Y'' then Inr [mk_track ''Y (Lyrics)'' rq]
      else if q = js ''Band popular songs'' then Inr [mk_track ''Band LYRIC video'' rq]
      else Inl SearchError)"
  "toLowerCase ex_services_lyrics = ex_lower"
  by (simp_all add: ex_services_lyrics_def)

lemma ex_similar_body_candidates:
  "similar_from_data ex_similar_body = Inr [\<lparr>artist = JStr (js ''X''), name = JStr (js ''Y'')\<rparr>]"
  by (simp add: similar_from_data_def ex_similar_body_def bind_exn_def similar_entry_ok_def
      to_candidate_def Let_def)

lemma ex_ly_lookup:
  "getSimilarTracksFromLastFm ex_services_lyrics (js ''Band'') (js ''Hit'')
     = ([LastFmFetch (js ''Band'') (js ''Hit'')],
        Inr [\<lparr>artist = JStr (js ''X''), name = JStr (js ''Y'')\<rparr>])"
  by (simp add: getSimilarTracksFromLastFm_def lastfm_try_def ex_ly_sv well_formed_js
      ex_similar_body_candidates)

lemma ex_ly_similar:
  "similarTracks_of ex_services_lyrics ex_last
     = [\<lparr>artist = JStr (js ''X''), name = JStr (js ''Y'')\<rparr>]"
  by (simp add: similarTracks_of_def ex_last_fields ex_ly_lookup)

lemma ex_ly_lookup_calls:
  "lookup_calls ex_services_lyrics ex_last = [LastFmFetch (js ''Band'') (js ''Hit'')]"
  by (simp add: lookup_calls_def ex_last_fields ex_ly_lookup)

lemma ex_ly_query: "searchQuery \<lparr>artist = JStr (js ''X''), name = JStr (js ''Y'')\<rparr> = Inr (js ''X Y'')"
  by (simp add: searchQuery_def bind_exn_def js_append)

lemma ex_ly_hits:
  "primary_hits ex_services_lyrics ex_last (similarTracks_of ex_services_lyrics ex_last)
     = [mk_track ''Y (Lyrics)'' ex_alice]"
  by (simp add: primary_hits_def ex_ly_similar search_first_def ex_ly_query bind_exn_def
      ex_ly_sv ex_last_fields)

lemma ex_ly_lyric_free:
  "\<not> lyric_free ex_services_lyrics (mk_track ''Y (Lyrics)'' rq)"
  "\<not> lyric_free ex_services_lyrics (mk_track ''Band LYRIC video'' rq)"
  by (simp_all add: lyric_free_def ex_title ex_ly_sv ex_lower_samples includes_samples)

lemma ex_ly_none:
  "filter (lyric_free ex_services_lyrics)
     (primary_hits ex_services_lyrics ex_last (similarTracks_of ex_services_lyrics ex_last)) = []"
  by (simp add: ex_ly_hits ex_ly_lyric_free)

lemma ex_ly_fallback:
  "fallbackRes ex_services_lyrics ex_last = Some [mk_track ''Band LYRIC video'' ex_alice]"
  by (simp add: fallbackRes_def ex_ly_sv ex_artistQuery ex_last_fields)

lemma ex_ly_usable: "usable_fallback ex_services_lyrics ex_last = []"
  by (simp add: usable_fallback_def ex_ly_fallback ex_ly_lyric_free)

lemma ex_ly_run:
  "autoPlayFunction ex_services_lyrics ex_auto_player (Some ex_last) =
     Inr (ex_auto_player\<lparr>calls :=
       [LastFmFetch (js ''Band'') (js ''Hit''),
        Search (js ''X Y'') (js ''ytmsearch''),
        Search (js ''Band popular songs'') (js ''ytmsearch'')]\<rparr>)"
proof -
  have on: "autoplay ex_auto_player" by (simp add: ex_auto_player_def)
  have found: "foundTracks ex_services_lyrics ex_last
      [\<lparr>artist = JStr (js ''X''), name = JStr (js ''Y'')\<rparr>] = []"
    using ex_ly_none by (simp add: foundTracks_def ex_ly_similar)
  show ?thesis
    by (simp add: autoPlayFunction_on [OF on] ex_ly_similar found fallback_path_eq ex_ly_usable
        ex_ly_lookup_calls Let_def ex_artistQuery search_calls_def ex_ly_query)
       (simp add: ex_auto_player_def)
qed

section \<open>Autoplay: the properties\<close>

text \<open>
  C5. With autoplay off, or without a last track, the function returns the player it was
  given: the same queue, the same playing flag, and the same log of calls, so neither the
  recommendation service nor the search was called, nothing was added and nothing played.
\<close>

theorem autoplay_off_is_noop:
  "\<not> autoplay p \<or> lastTrack = None \<Longrightarrow> autoPlayFunction sv p lastTrack = Inr p"
  by (auto simp: autoPlayFunction_def)

text \<open>
  Both cases: autoplay off with a last track, and autoplay on without one.
\<close>

theorem autoplay_off_is_noop_witness:
  "\<not> autoplay ex_player
   \<and> autoPlayFunction ex_services ex_player (Some ex_last) = Inr ex_player
   \<and> autoPlayFunction ex_services ex_auto_player None = Inr ex_auto_player"
proof -
  have off: "\<not> autoplay ex_player \<or> Some ex_last = None"
    by (simp add: ex_player_def)
  have none: "\<not> autoplay ex_auto_player \<or> (None :: track option) = None"
    by simp
  show ?thesis
    using autoplay_off_is_noop [OF off, of ex_services]
      autoplay_off_is_noop [OF none, of ex_services]
    by (simp add: ex_player_def)
qed

text \<open>
  C7. When no hit of the primary searches passes the title test and no track of the
  fallback search does, the run ends without an error, the queue, the playing flag and the
  autoplay flag are what they were, and every call made was a network call: there was no
  \<^verbatim>\<open>queue.add\<close> and no \<^verbatim>\<open>play\<close>.
\<close>

theorem autoplay_nothing_found_is_noop:
  assumes "filter (lyric_free sv) (primary_hits sv lt (similarTracks_of sv lt)) = []"
    and "usable_fallback sv lt = []"
  shows "\<exists>p' net. autoPlayFunction sv p (Some lt) = Inr p'
           \<and> queue_tracks p' = queue_tracks p
           \<and> playing p' = playing p
           \<and> autoplay p' = autoplay p
           \<and> calls p' = calls p @ net
           \<and> (\<forall>c\<in>set net. network_call c)"
proof (cases "autoplay p")
  case False
  then have "autoPlayFunction sv p (Some lt) = Inr p"
    by (simp add: autoPlayFunction_def)
  then show ?thesis
    by (intro exI [of _ p] exI [of _ "[]"]) simp
next
  case True
  have "foundTracks sv lt (similarTracks_of sv lt) = []"
    using assms(1) by (simp add: foundTracks_def)
  with autoplay_run [OF True, of sv lt] assms(2) show ?thesis
    by auto
qed

text \<open>
  On the sample the lookup names a track, the primary search finds \<open>Y (Lyrics)\<close> and the
  fallback search finds \<open>Band LYRIC video\<close>; both fail the title test, and the run makes
  its three requests and changes nothing else.
\<close>

theorem autoplay_nothing_found_is_noop_witness:
  "primary_hits ex_services_lyrics ex_last (similarTracks_of ex_services_lyrics ex_last)
     = [mk_track ''Y (Lyrics)'' ex_alice]
   \<and> filter (lyric_free ex_services_lyrics)
       (primary_hits ex_services_lyrics ex_last (similarTracks_of ex_services_lyrics ex_last)) = []
   \<and> fallbackRes ex_services_lyrics ex_last = Some [mk_track ''Band LYRIC video'' ex_alice]
   \<and> usable_fallback ex_services_lyrics ex_last = []
   \<and> autoPlayFunction ex_services_lyrics ex_auto_player (Some ex_last) =
       Inr (ex_auto_player\<lparr>calls :=
         [LastFmFetch (js ''Band'') (js ''Hit''),
          Search (js ''X Y'') (js ''ytmsearch''),
          Search (js ''Band popular songs'') (js ''ytmsearch'')]\<rparr>)
   \<and> queue_tracks (ex_auto_player\<lparr>calls :=
         [LastFmFetch (js ''Band'') (js ''Hit''),
          Search (js ''X Y'') (js ''ytmsearch''),
          Search (js ''Band popular songs'') (js ''ytmsearch'')]\<rparr>)
       = queue_tracks ex_auto_player"
proof -
  from autoplay_nothing_found_is_noop [OF ex_ly_none ex_ly_usable, of ex_auto_player]
  obtain p' where "autoPlayFunction ex_services_lyrics ex_auto_player (Some ex_last) = Inr p'"
    and "queue_tracks p' = queue_tracks ex_auto_player"
    by blast
  then show ?thesis
    by (simp add: ex_ly_hits ex_ly_lyric_free ex_ly_fallback ex_ly_usable ex_ly_run)
qed

subsection \<open>A query that cannot be built\<close>

lemma query_throws_no_search:
  "searchQuery \<lparr>artist = JStr (js ''A''), name = JObj [(js ''toString'', JNum (js ''1''))]\<rparr>
     = Inl TypeError"
  "search_calls \<lparr>artist = JStr (js ''A''), name = JObj [(js ''toString'', JNum (js ''1''))]\<rparr>
     = []"
  "search_first sv lt \<lparr>artist = JStr (js ''A''), name = JObj [(js ''toString'', JNum (js ''1''))]\<rparr>
     = None"
  by (simp_all add: searchQuery_def search_calls_def search_first_def bind_exn_def)

subsection \<open>Titles of enqueued tracks\<close>

lemma network_not_add: "\<forall>c\<in>set net. network_call c \<Longrightarrow> QueueAdd ts \<notin> set net"
  by auto

text \<open>
  C8. In every run, on either path, and for every title the search can return, no track
  passed to \<^verbatim>\<open>queue.add\<close> and no track appended to the queue has a title whose lower-case
  form, as the engine computes it, contains \<open>lyric\<close> or \<open>lyrics\<close>. Where the engine lowers
  a title unit by unit, this says that no contiguous part of the title itself reads
  \<open>lyric\<close> or \<open>lyrics\<close> up to case.
\<close>

theorem enqueued_titles_have_no_lyric:
  "\<exists>p' new added. autoPlayFunction sv p lastTrack = Inr p'
     \<and> calls p' = calls p @ new
     \<and> queue_tracks p' = queue_tracks p @ added
     \<and> (\<forall>ts. QueueAdd ts \<in> set new \<longrightarrow>
          (\<forall>t\<in>set ts.
             \<not> sublist (js ''lyric'') (toLowerCase sv (title (info t)))
             \<and> \<not> sublist (js ''lyrics'') (toLowerCase sv (title (info t)))))
     \<and> (\<forall>t\<in>set added.
             \<not> sublist (js ''lyric'') (toLowerCase sv (title (info t)))
             \<and> \<not> sublist (js ''lyrics'') (toLowerCase sv (title (info t))))
     \<and> (\<forall>ts t f u. QueueAdd ts \<in> set new \<and> t \<in> set ts
             \<and> toLowerCase sv (title (info t)) = map f (title (info t))
             \<and> sublist u (title (info t))
          \<longrightarrow> map f u \<noteq> js ''lyric'' \<and> map f u \<noteq> js ''lyrics'')"
proof (cases "autoplay p \<and> lastTrack \<noteq> None")
  case False
  then have "autoPlayFunction sv p lastTrack = Inr p"
    by (auto simp: autoPlayFunction_def)
  then show ?thesis
    by (intro exI [of _ p] exI [of _ "[]"]) simp
next
  case True
  then obtain lt where on: "autoplay p" and lt: "lastTrack = Some lt" by auto
  from autoplay_run [OF on, of sv lt] obtain p' net added where
    run: "autoPlayFunction sv p (Some lt) = Inr p'"
    and net: "\<forall>c\<in>set net. network_call c"
    and cs: "calls p' = calls p @ net @
         (if added = [] then []
          else QueueAdd added # (if \<not> playing p then [Play] else []))"
    and q: "queue_tracks p' = queue_tracks p @ added"
    and added: "added = (if foundTracks sv lt (similarTracks_of sv lt) \<noteq> []
                then foundTracks sv lt (similarTracks_of sv lt)
                else map tag_autoplay (take 3 (usable_fallback sv lt)))"
    by blast
  have free: "\<forall>t\<in>set added. lyric_free sv t"
    using added foundTracks_lyric_free [of _ sv lt] fallback_lyric_free [of _ sv lt]
    by (auto split: if_splits)
  let ?new = "net @ (if added = [] then []
          else QueueAdd added # (if \<not> playing p then [Play] else []))"
  have only: "\<forall>ts. QueueAdd ts \<in> set ?new \<longrightarrow> ts = added"
    using network_not_add [OF net] by (auto split: if_splits)
  have plain: "\<forall>t\<in>set added.
             \<not> sublist (js ''lyric'') (toLowerCase sv (title (info t)))
             \<and> \<not> sublist (js ''lyrics'') (toLowerCase sv (title (info t)))"
    using free by (simp add: lyric_free_iff)
  have unitwise: "\<forall>ts t f u. QueueAdd ts \<in> set ?new \<and> t \<in> set ts
             \<and> toLowerCase sv (title (info t)) = map f (title (info t))
             \<and> sublist u (title (info t))
          \<longrightarrow> map f u \<noteq> js ''lyric'' \<and> map f u \<noteq> js ''lyrics''"
    using only free lyric_free_unitwise by blast
  show ?thesis
    apply (rule exI [of _ p'], rule exI [of _ ?new], rule exI [of _ added])
    apply (intro conjI)
    using run lt apply simp
    using cs apply simp
    using q apply simp
    using only plain apply blast
    using plain apply blast
    using unitwise apply blast
    done
qed

text \<open>
  The sample search answers \<open>Song (Lyrics)\<close>, \<open>Song\<close>, \<open>Other\<close>; the run adds the last
  two. The lowered title of \<open>Song\<close> contains neither word; that of \<open>Song (Lyrics)\<close>,
  which was dropped, does.
\<close>

theorem enqueued_titles_have_no_lyric_witness:
  "search ex_services (js ''Band popular songs'') (js ''ytmsearch'') ex_alice
     = Inr [mk_track ''Song (Lyrics)'' ex_alice, mk_track ''Song'' ex_alice,
            mk_track ''Other'' ex_alice]
   \<and> autoPlayFunction ex_services ex_auto_player (Some ex_last) =
     Inr \<lparr>autoplay = True, playing = True,
          queue_tracks = [tag_autoplay (mk_track ''Song'' ex_alice),
                          tag_autoplay (mk_track ''Other'' ex_alice)],
          calls = calls ex_auto_player @
                  [LastFmFetch (js ''Band'') (js ''Hit''),
                   Search (js ''Band popular songs'') (js ''ytmsearch''),
                   QueueAdd [tag_autoplay (mk_track ''Song'' ex_alice),
                             tag_autoplay (mk_track ''Other'' ex_alice)],
                   Play]\<rparr>
   \<and> \<not> sublist (js ''lyric'')
         (toLowerCase ex_services (title (info (tag_autoplay (mk_track ''Song'' ex_alice)))))
   \<and> \<not> sublist (js ''lyrics'')
         (toLowerCase ex_services (title (info (tag_autoplay (mk_track ''Song'' ex_alice)))))
   \<and> sublist (js ''lyric'')
         (toLowerCase ex_services (title (info (mk_track ''Song (Lyrics)'' ex_alice))))"
proof -
  let ?ts = "[tag_autoplay (mk_track ''Song'' ex_alice), tag_autoplay (mk_track ''Other'' ex_alice)]"
  from enqueued_titles_have_no_lyric [of ex_services ex_auto_player "Some ex_last"]
  obtain p' new where
    run: "autoPlayFunction ex_services ex_auto_player (Some ex_last) = Inr p'"
    and cs: "calls p' = calls ex_auto_player @ new"
    and ok: "\<forall>ts. QueueAdd ts \<in> set new \<longrightarrow>
          (\<forall>t\<in>set ts.
             \<not> sublist (js ''lyric'') (toLowerCase ex_services (title (info t)))
             \<and> \<not> sublist (js ''lyrics'') (toLowerCase ex_services (title (info t))))"
    by blast
  have "p' = \<lparr>autoplay = True, playing = True, queue_tracks = ?ts,
          calls = [LastFmFetch (js ''Band'') (js ''Hit''),
                   Search (js ''Band popular songs'') (js ''ytmsearch''),
                   QueueAdd ?ts, Play]\<rparr>"
    using run unfolding ex_run by simp
  with cs have "new = [LastFmFetch (js ''Band'') (js ''Hit''),
                   Search (js ''Band popular songs'') (js ''ytmsearch''),
                   QueueAdd ?ts, Play]"
    by (simp add: ex_auto_player_def)
  then have here: "QueueAdd ?ts \<in> set new" by simp
  from ok [rule_format, OF here, of "tag_autoplay (mk_track ''Song'' ex_alice)"]
  have clean: "\<not> sublist (js ''lyric'')
         (toLowerCase ex_services (title (info (tag_autoplay (mk_track ''Song'' ex_alice)))))
     \<and> \<not> sublist (js ''lyrics'')
         (toLowerCase ex_services (title (info (tag_autoplay (mk_track ''Song'' ex_alice)))))"
    by simp
  have dropped: "sublist (js ''lyric'')
         (toLowerCase ex_services (title (info (mk_track ''Song (Lyrics)'' ex_alice))))"
    by (simp add: str_includes_sublist [symmetric] ex_title ex_sv ex_lower_samples
        includes_samples)
  have found: "search ex_services (js ''Band popular songs'') (js ''ytmsearch'') ex_alice
     = Inr [mk_track ''Song (Lyrics)'' ex_alice, mk_track ''Song'' ex_alice,
            mk_track ''Other'' ex_alice]"
    by (simp add: ex_sv)
  show ?thesis
    using clean dropped found by (simp add: ex_run) (simp add: ex_auto_player_def)
qed

subsection \<open>The fallback path\<close>

lemma network_filter_add: "\<forall>c\<in>set net. network_call c \<Longrightarrow> filter is_queue_add net = []"
proof (induction net)
  case Nil
  show ?case by simp
next
  case (Cons c net)
  then show ?case by (cases c) simp_all
qed

lemma client_data_of_tag:
  "client_data_of (tag_autoplay t)
     = AList.update (js ''fromAutoplay'') (JBool True) (client_data_of t)"
  by (simp add: client_data_of_def tag_autoplay_plugin)

lemma other_props_of_tag: "other_props_of (tag_autoplay t) = other_props_of t"
  by (simp add: other_props_of_def tag_autoplay_plugin)

text \<open>
  C9. Let autoplay be on and the primary path have found nothing, so that the fallback
  path runs. No \<^verbatim>\<open>queue.add\<close> of the run passes more than 3 tracks. When 1 to 3 tracks
  of the fallback search pass the title test, the run makes exactly one \<^verbatim>\<open>queue.add\<close>,
  with exactly those tracks, tagged, in their order, and the queue grows by them. Tagging
  keeps a track's info and requester and its other annotation data, and sets
  \<^verbatim>\<open>fromAutoplay\<close> to \<^verbatim>\<open>true\<close> in its client data, leaving every other key as it was.
\<close>

theorem fallback_enqueues_usable:
  assumes "autoplay p" and "foundTracks sv lt (similarTracks_of sv lt) = []"
  shows "\<exists>p' new. autoPlayFunction sv p (Some lt) = Inr p'
     \<and> calls p' = calls p @ new
     \<and> (\<forall>ts. QueueAdd ts \<in> set new \<longrightarrow> length ts \<le> 3)
     \<and> (1 \<le> length (usable_fallback sv lt) \<and> length (usable_fallback sv lt) \<le> 3 \<longrightarrow>
          filter is_queue_add new = [QueueAdd (map tag_autoplay (usable_fallback sv lt))]
          \<and> queue_tracks p' = queue_tracks p @ map tag_autoplay (usable_fallback sv lt))
     \<and> (\<forall>t\<in>set (usable_fallback sv lt).
          info (tag_autoplay t) = info t
          \<and> requester (tag_autoplay t) = requester t
          \<and> map_of (client_data_of (tag_autoplay t))
              = (map_of (client_data_of t))(js ''fromAutoplay'' \<mapsto> JBool True)
          \<and> other_props_of (tag_autoplay t) = other_props_of t)"
proof -
  let ?cl = "map tag_autoplay (take 3 (usable_fallback sv lt))"
  from autoplay_run [OF assms(1), of sv lt] assms(2) obtain p' net where
    run: "autoPlayFunction sv p (Some lt) = Inr p'"
    and net: "\<forall>c\<in>set net. network_call c"
    and cs: "calls p' = calls p @ net @
         (if ?cl = [] then []
          else QueueAdd ?cl # (if \<not> playing p then [Play] else []))"
    and q: "queue_tracks p' = queue_tracks p @ ?cl"
    by auto
  let ?new = "net @ (if ?cl = [] then []
          else QueueAdd ?cl # (if \<not> playing p then [Play] else []))"
  have cap: "\<forall>ts. QueueAdd ts \<in> set ?new \<longrightarrow> length ts \<le> 3"
    using network_not_add [OF net] by (auto split: if_splits)
  have exact: "1 \<le> length (usable_fallback sv lt) \<and> length (usable_fallback sv lt) \<le> 3 \<longrightarrow>
          filter is_queue_add ?new = [QueueAdd (map tag_autoplay (usable_fallback sv lt))]
          \<and> queue_tracks p' = queue_tracks p @ map tag_autoplay (usable_fallback sv lt)"
    using network_filter_add [OF net] q by auto
  have tags: "\<forall>t\<in>set (usable_fallback sv lt).
          info (tag_autoplay t) = info t
          \<and> requester (tag_autoplay t) = requester t
          \<and> map_of (client_data_of (tag_autoplay t))
              = (map_of (client_data_of t))(js ''fromAutoplay'' \<mapsto> JBool True)
          \<and> other_props_of (tag_autoplay t) = other_props_of t"
    by (simp add: tag_autoplay_info tag_autoplay_requester client_data_of_tag
        other_props_of_tag update_conv')
  show ?thesis
    apply (rule exI [of _ p'], rule exI [of _ ?new])
    using run cs cap exact tags
    apply (simp only: simp_thms)
    done
qed

subsection \<open>Last.fm names a track whose name cannot be turned into a string\<close>

lemma ex_ts_sv:
  "LASTFM_API_KEY ex_services_tostring = Some (js ''key'')"
  "lastfm ex_services_tostring a t = JsonBody ex_tostring_body"
  "search ex_services_tostring q src rq =
     (if q = js ''Band popular songs''
      then Inr [mk_track ''Song (Lyrics)'' rq, mk_track ''Song'' rq, mk_track ''Other'' rq]
      else Inr [mk_track ''Wrong'' rq])"
  "toLowerCase ex_services_tostring = ex_lower"
  by (simp_all add: ex_services_tostring_def)

lemma ex_ts_candidates:
  "similar_from_data ex_tostring_body
     = Inr [\<lparr>artist = JStr (js ''A''), name = JObj [(js ''toString'', JNum (js ''1''))]\<rparr>]"
  by (simp add: similar_from_data_def ex_tostring_body_def bind_exn_def similar_entry_ok_def
      to_candidate_def Let_def)

lemma ex_ts_lookup:
  "getSimilarTracksFromLastFm ex_services_tostring (js ''Band'') (js ''Hit'')
     = ([LastFmFetch (js ''Band'') (js ''Hit'')],
        Inr [\<lparr>artist = JStr (js ''A''), name = JObj [(js ''toString'', JNum (js ''1''))]\<rparr>])"
  by (simp add: getSimilarTracksFromLastFm_def lastfm_try_def ex_ts_sv well_formed_js
      ex_ts_candidates)

lemma ex_ts_similar:
  "similarTracks_of ex_services_tostring ex_last
     = [\<lparr>artist = JStr (js ''A''), name = JObj [(js ''toString'', JNum (js ''1''))]\<rparr>]"
  by (simp add: similarTracks_of_def ex_last_fields ex_ts_lookup)

lemma ex_ts_found:
  "foundTracks ex_services_tostring ex_last (similarTracks_of ex_services_tostring ex_last) = []"
  by (simp add: ex_ts_similar foundTracks_def primary_hits_def query_throws_no_search)

lemma ex_ts_lyric_free:
  "\<not> lyric_free ex_services_tostring (mk_track ''Song (Lyrics)'' rq)"
  "lyric_free ex_services_tostring (mk_track ''Song'' rq)"
  "lyric_free ex_services_tostring (mk_track ''Other'' rq)"
  by (simp_all add: lyric_free_def ex_title ex_ts_sv ex_lower_samples includes_samples)

lemma ex_ts_usable:
  "usable_fallback ex_services_tostring ex_last
     = [mk_track ''Song'' ex_alice, mk_track ''Other'' ex_alice]"
  by (simp add: usable_fallback_def fallbackRes_def ex_ts_sv ex_artistQuery
      ex_last_fields ex_ts_lyric_free)

lemma ex_ts_run:
  "autoPlayFunction ex_services_tostring ex_auto_player (Some ex_last) =
     Inr \<lparr>autoplay = True, playing = True,
          queue_tracks = [tag_autoplay (mk_track ''Song'' ex_alice),
                          tag_autoplay (mk_track ''Other'' ex_alice)],
          calls = [LastFmFetch (js ''Band'') (js ''Hit''),
                   Search (js ''Band popular songs'') (js ''ytmsearch''),
                   QueueAdd [tag_autoplay (mk_track ''Song'' ex_alice),
                             tag_autoplay (mk_track ''Other'' ex_alice)],
                   Play]\<rparr>"
proof -
  have on: "autoplay ex_auto_player" by (simp add: ex_auto_player_def)
  have lc: "lookup_calls ex_services_tostring ex_last = [LastFmFetch (js ''Band'') (js ''Hit'')]"
    by (simp add: lookup_calls_def ex_last_fields ex_ts_lookup)
  have found: "foundTracks ex_services_tostring ex_last
      [\<lparr>artist = JStr (js ''A''), name = JObj [(js ''toString'', JNum (js ''1''))]\<rparr>] = []"
    using ex_ts_found by (simp add: ex_ts_similar)
  show ?thesis
    by (simp add: autoPlayFunction_on [OF on] ex_ts_similar found fallback_path_eq ex_ts_usable
        lc Let_def ex_artistQuery query_throws_no_search enqueue_and_play_def queue_add_def
        player_play_def)
       (simp add: ex_auto_player_def)
qed

text \<open>
  On this sample the lookup gives a candidate, but its query cannot be built, so no
  primary search is made although the search would have found something; the fallback
  finds three tracks, two of them usable, and exactly they are added.
\<close>

theorem fallback_enqueues_usable_witness:
  "autoplay ex_auto_player
   \<and> similarTracks_of ex_services_tostring ex_last
       = [\<lparr>artist = JStr (js ''A''), name = JObj [(js ''toString'', JNum (js ''1''))]\<rparr>]
   \<and> foundTracks ex_services_tostring ex_last (similarTracks_of ex_services_tostring ex_last) = []
   \<and> 1 \<le> length (usable_fallback ex_services_tostring ex_last)
   \<and> length (usable_fallback ex_services_tostring ex_last) \<le> 3
   \<and> usable_fallback ex_services_tostring ex_last
       = [mk_track ''Song'' ex_alice, mk_track ''Other'' ex_alice]
   \<and> autoPlayFunction ex_services_tostring ex_auto_player (Some ex_last) =
       Inr \<lparr>autoplay = True, playing = True,
            queue_tracks = queue_tracks ex_auto_player
              @ map tag_autoplay [mk_track ''Song'' ex_alice, mk_track ''Other'' ex_alice],
            calls = [LastFmFetch (js ''Band'') (js ''Hit''),
                     Search (js ''Band popular songs'') (js ''ytmsearch''),
                     QueueAdd (map tag_autoplay
                       [mk_track ''Song'' ex_alice, mk_track ''Other'' ex_alice]),
                     Play]\<rparr>
   \<and> map_of (client_data_of (tag_autoplay (mk_track ''Song'' ex_alice))) (js ''fromAutoplay'')
       = Some (JBool True)"
proof -
  have on: "autoplay ex_auto_player" by (simp add: ex_auto_player_def)
  have range: "1 \<le> length (usable_fallback ex_services_tostring ex_last)
      \<and> length (usable_fallback ex_services_tostring ex_last) \<le> 3"
    by (simp add: ex_ts_usable)
  from fallback_enqueues_usable [OF on ex_ts_found] obtain p' new where
    run: "autoPlayFunction ex_services_tostring ex_auto_player (Some ex_last) = Inr p'"
    and tags: "\<forall>t\<in>set (usable_fallback ex_services_tostring ex_last).
          map_of (client_data_of (tag_autoplay t))
              = (map_of (client_data_of t))(js ''fromAutoplay'' \<mapsto> JBool True)"
    by blast
  have "mk_track ''Song'' ex_alice \<in> set (usable_fallback ex_services_tostring ex_last)"
    by (simp add: ex_ts_usable)
  with tags have "map_of (client_data_of (tag_autoplay (mk_track ''Song'' ex_alice)))
      (js ''fromAutoplay'') = Some (JBool True)"
    by simp
  moreover have "foundTracks ex_services_tostring ex_last
      [\<lparr>artist = JStr (js ''A''), name = JObj [(js ''toString'', JNum (js ''1''))]\<rparr>] = []"
    using ex_ts_found by (simp add: ex_ts_similar)
  ultimately show ?thesis
    using on range
    by (simp add: ex_ts_usable ex_ts_run ex_ts_similar) (simp add: ex_auto_player_def)
qed

subsection \<open>A failed lookup\<close>














subsection \<open>Last.fm names a track by an artist object without a name\<close>












end
